theory Spec2Isabelle
  imports Complex_Main "HOL-Library.Word" "HOL-Library.Signed_Division"
begin

unbundle bit_operations_syntax

section \<open>Nanvix: the lottery scheduler and the block buffer cache\<close>

text \<open>
  The kernel is written for the 32-bit i386: \<open>int\<close>, \<open>unsigned\<close>, \<open>unsigned long\<close> and
  pointers are 32 bits wide. A C integer is a \<open>32 word\<close>; \<open>+\<close>, \<open>-\<close> and \<open>*\<close> wrap, \<open>div\<close> and
  \<open>mod\<close> are the unsigned operations, \<open>sint\<close> reads the word as an \<open>int\<close> and \<open><s\<close> is the
  signed comparison.
\<close>

type_synonym cint = "32 word"

text \<open>Division of two C \<open>int\<close>s truncates towards zero.\<close>

definition c_sdiv :: "cint \<Rightarrow> cint \<Rightarrow> cint" where
  "c_sdiv a b = word_of_int (sint a sdiv sint b)"

subsection \<open>Processes\<close>

text \<open>
  Modelled from the spec: the process states of \<open>nanvix/pm.h\<close>, which is not among the
  sources. The scheduler only tests for \<open>PROC_READY\<close>, \<open>PROC_RUNNING\<close> and \<open>PROC_STOPPED\<close>.
\<close>

datatype pstate =
  PROC_DEAD | PROC_ZOMBIE | PROC_RUNNING | PROC_READY | PROC_WAITING | PROC_STOPPED

datatype signal = SIGCHLD | SIGALRM

text \<open>
  Modelled from the spec: the fields of \<open>struct process\<close> that the scheduler reads and
  writes. A pointer to a process is its index in the process table.
\<close>

record process =
  state :: pstate
  counter :: cint
  priority :: cint
  nice :: cint
  tickets :: cint
  compensation :: cint
  alarm :: cint
  received :: "signal set"
  father :: nat

subsection \<open>Block buffers\<close>

text \<open>
  A pointer to a \<open>struct buffer\<close> is the address of a slot of \<open>buffers\<close>, of the list head
  \<open>free_buffers\<close>, or of a bucket head of \<open>hashtab\<close>.
\<close>

datatype bufptr = Buffers nat | Free_buffers | Hashtab nat

text \<open>
  Modelled from the spec: \<open>struct buffer\<close> of \<open>nanvix/fs.h\<close>, which is not among the sources.
  \<open>chain\<close> is the chain of the processes that sleep on the buffer (\<open>NULL\<close> is the empty
  list).
\<close>

record buffer =
  dev :: cint
  num :: cint
  data :: cint
  count :: cint
  flags :: cint
  chain :: "nat list"
  free_next :: bufptr
  free_prev :: bufptr
  hash_next :: bufptr
  hash_prev :: bufptr

text \<open>
  Modelled from the spec: the four buffer flags of \<open>nanvix/fs.h\<close>, one bit each.
\<close>

definition BUFFER_VALID :: cint where "BUFFER_VALID = 1"
definition BUFFER_BUSY :: cint where "BUFFER_BUSY = 2"
definition BUFFER_LOCKED :: cint where "BUFFER_LOCKED = 4"
definition BUFFER_DIRTY :: cint where "BUFFER_DIRTY = 8"

subsection \<open>Compile-time constants and the kernel state\<close>

text \<open>
  The constants of the headers that are not among the sources are parameters of the model.
  \<open>IDLE\<close>, \<open>FIRST_PROC\<close> and \<open>LAST_PROC\<close> are indices of the process table.
\<close>

record config =
  NR_BUFFERS :: nat
  BUFFERS_HASHTAB_SIZE :: nat
  BLOCK_SIZE :: cint
  BUFFERS_VIRT :: cint
  PROC_QUANTUM :: cint
  PRIO_USER :: cint
  NORMALIZATION_VALUE :: cint
  IDLE :: nat
  FIRST_PROC :: nat
  LAST_PROC :: nat
  IS_VALID :: "process \<Rightarrow> bool"

datatype io_event = Read_block bufptr | Write_block bufptr

text \<open>
  The globals of the two files. \<open>mem\<close> is the memory that holds \<open>buffers\<close>, \<open>free_buffers\<close>
  and \<open>hashtab\<close>, addressed by pointer; \<open>any_free_chain\<close> is the file-level \<open>chain\<close> of
  \<open>buffer.c\<close>; \<open>interrupts\<close> tells whether interrupts are enabled; \<open>devlog\<close> records the calls
  of the block device driver, latest first.
\<close>

record kernel =
  mem :: "bufptr \<Rightarrow> buffer"
  any_free_chain :: "nat list"
  proctab :: "nat \<Rightarrow> process"
  curr_proc :: nat
  last_proc :: nat
  ticks :: cint
  interrupts :: bool
  devlog :: "io_event list"

section \<open>The scheduler\<close>

text \<open>
  Modelled from the spec: \<open>CURRENT_TIME\<close>, a macro of \<open>nanvix/clock.h\<close>, is the current
  wall-clock tick.
\<close>

definition CURRENT_TIME :: "kernel \<Rightarrow> cint" where
  "CURRENT_TIME k = ticks k"

text \<open>
  \<open>rand\<close>: the seed is an \<open>unsigned long\<close>, so the division and the remainder are unsigned;
  the result is below 32768 and the conversion to \<open>int\<close> keeps it.
\<close>

definition rand :: "kernel \<Rightarrow> cint" where
  "rand k = (let seed = CURRENT_TIME k * 1103515245 + 12345
             in (seed div 65536) mod 32768)"

definition next_process :: "kernel \<Rightarrow> cint \<Rightarrow> cint" where
  "next_process k total_tickets = c_sdiv (rand k * total_tickets) 32768 + 1"

definition sched :: "process \<Rightarrow> process" where
  "sched p = p\<lparr>state := PROC_READY, counter := 0\<rparr>"

definition sched_at :: "nat \<Rightarrow> kernel \<Rightarrow> kernel" where
  "sched_at p k = k\<lparr>proctab := (proctab k)(p := sched (proctab k p))\<rparr>"

text \<open>
  Modelled from the spec: \<open>sndsig\<close> delivers a signal to a process; the process records it
  as received.
\<close>

definition sndsig :: "nat \<Rightarrow> signal \<Rightarrow> kernel \<Rightarrow> kernel" where
  "sndsig p sig k =
     k\<lparr>proctab := (proctab k)(p := (proctab k p)\<lparr>received := insert sig (received (proctab k p))\<rparr>)\<rparr>"

definition resume :: "nat \<Rightarrow> kernel \<Rightarrow> kernel" where
  "resume p k = (if state (proctab k p) = PROC_STOPPED then sched_at p k else k)"

text \<open>
  The C type \<open>float\<close> is the IEEE 754 binary32 format: 24 significant bits, normal exponents
  from \<open>-126\<close> on. A finite \<open>float\<close> is the rational number it stands for. \<open>float_round\<close>
  rounds a rational to the format, to the nearest value and to the one with an even
  significand when two are as near: for \<open>2 ^ e \<le> \<bar>x\<bar> < 2 ^ (e + 1)\<close> the values of the
  format are the multiples of \<open>2 ^ (e - 23)\<close>, and below \<open>2 ^ (- 126)\<close> those of
  \<open>2 ^ (- 149)\<close>. The format ends at \<open>2 ^ 128\<close>, which no value computed from 32-bit integers
  by the two divisions below reaches.
\<close>

definition round_half_even :: "rat \<Rightarrow> int" where
  "round_half_even q =
     (let f = \<lfloor>q\<rfloor>; r = q - of_int f
      in if r < 1 / 2 then f else if 1 / 2 < r then f + 1 else if even f then f else f + 1)"

text \<open>The position of the leading bit of a positive number.\<close>

fun ilog2 :: "nat \<Rightarrow> nat" where
  "ilog2 n = (if n < 2 then 0 else Suc (ilog2 (n div 2)))"

declare ilog2.simps [simp del]

text \<open>The exponent \<open>e\<close> of a positive rational \<open>x\<close>: \<open>2 ^ e \<le> x < 2 ^ (e + 1)\<close>.\<close>

definition float_exponent :: "rat \<Rightarrow> int" where
  "float_exponent x =
     (let (a, b) = quotient_of x;
          e = int (ilog2 (nat a)) - int (ilog2 (nat b))
      in if 2 powi e \<le> x then e else e - 1)"

definition float_round :: "rat \<Rightarrow> rat" where
  "float_round x =
     (if x = 0 then 0
      else let e = max (float_exponent \<bar>x\<bar>) (- 126);
               ulp = 2 powi (e - 23)
           in of_int (round_half_even (x / ulp)) * ulp)"

text \<open>
  The conversion of an \<open>int\<close> to \<open>float\<close> and the division of two \<open>float\<close>s round their exact
  result. The conversion of a \<open>float\<close> to \<open>unsigned int\<close> drops the fraction; C defines it for
  values from 0 to \<open>2 ^ 32 - 1\<close> only, and here a value outside is taken modulo \<open>2 ^ 32\<close>.
\<close>

definition c_truncate :: "rat \<Rightarrow> int" where
  "c_truncate y = (if 0 \<le> y then \<lfloor>y\<rfloor> else \<lceil>y\<rceil>)"

definition float_of_int :: "cint \<Rightarrow> rat" where
  "float_of_int w = float_round (of_int (sint w))"

definition float_div :: "rat \<Rightarrow> rat \<Rightarrow> rat" where
  "float_div a b = float_round (a / b)"

definition unsigned_of_float :: "rat \<Rightarrow> cint" where
  "unsigned_of_float y = word_of_int (c_truncate y)"

text \<open>
  Lines 78 to 81 of the scheduler, from \<open>PROC_QUANTUM\<close>, the counter and the tickets of
  the current process to the \<open>int\<close> that is stored: each of the three \<open>float\<close> variables holds
  a rounded result, and the subtraction of line 81 is one of \<open>unsigned int\<close>. The guard of
  line 77 keeps \<open>used_quantum\<close> away from 0: for a \<open>PROC_QUANTUM\<close> other than 0 no division
  is by 0.
\<close>

definition float_compensation :: "cint \<Rightarrow> cint \<Rightarrow> cint \<Rightarrow> cint" where
  "float_compensation quantum cnt tck =
     (let used_quantum = float_of_int (quantum - cnt);
          fraction = float_div used_quantum (float_of_int quantum);
          compensation = float_div (float_of_int tck) fraction;
          final = unsigned_of_float compensation - tck
      in final)"

text \<open>
  \<open>add_compensation\<close>: the computation of lines 78 to 81 is the argument \<open>fcompute\<close>; in the
  kernel it is \<open>float_compensation\<close>, so that \<open>add_compensation c float_compensation\<close> and
  \<open>yield c float_compensation\<close> are the routines of the scheduler.
\<close>

definition add_compensation :: "config \<Rightarrow> (cint \<Rightarrow> cint \<Rightarrow> cint \<Rightarrow> cint) \<Rightarrow> kernel \<Rightarrow> kernel" where
  "add_compensation c fcompute k =
     (let p = proctab k (curr_proc k)
      in if 0 <s counter p \<and> counter p \<noteq> PROC_QUANTUM c
         then k\<lparr>proctab := (proctab k)(curr_proc k :=
                  p\<lparr>compensation := fcompute (PROC_QUANTUM c) (counter p) (tickets p)\<rparr>)\<rparr>
         else k)"

text \<open>The processes from \<open>FIRST_PROC\<close> to \<open>LAST_PROC\<close>, in table order.\<close>

definition procs :: "config \<Rightarrow> nat list" where
  "procs c = [FIRST_PROC c ..< Suc (LAST_PROC c)]"

text \<open>
  The first loop of \<open>yield\<close>: it adds up the tickets of the ready processes and delivers
  the expired alarms.
\<close>

fun count_tickets :: "config \<Rightarrow> nat list \<Rightarrow> cint \<Rightarrow> kernel \<Rightarrow> cint \<times> kernel" where
  "count_tickets c [] total_tickets k = (total_tickets, k)"
| "count_tickets c (p # ps) total_tickets k =
     (let q = proctab k p;
          total_tickets' = (if state q = PROC_READY
                            then total_tickets + (tickets q + compensation q)
                            else total_tickets)
      in if \<not> IS_VALID c q then count_tickets c ps total_tickets' k
         else if alarm q \<noteq> 0 \<and> alarm q < ticks k
         then count_tickets c ps total_tickets'
                (sndsig p SIGALRM (k\<lparr>proctab := (proctab k)(p := q\<lparr>alarm := 0\<rparr>)\<rparr>))
         else count_tickets c ps total_tickets' k)"

text \<open>
  The second loop of \<open>yield\<close>: \<open>next\<close> starts as \<open>IDLE\<close> and becomes the first ready process
  at which \<open>tickets_sum > sorted_ticket\<close>.
\<close>

fun find_winner :: "(nat \<Rightarrow> process) \<Rightarrow> cint \<Rightarrow> cint \<Rightarrow> nat list \<Rightarrow> nat \<Rightarrow> nat" where
  "find_winner tab sorted_ticket tickets_sum [] nxt = nxt"
| "find_winner tab sorted_ticket tickets_sum (p # ps) nxt =
     (if state (tab p) \<noteq> PROC_READY then find_winner tab sorted_ticket tickets_sum ps nxt
      else let tickets_sum' = tickets_sum + (tickets (tab p) + compensation (tab p))
           in if sorted_ticket <s tickets_sum' then p
              else find_winner tab sorted_ticket tickets_sum' ps nxt)"

text \<open>Modelled from the spec: \<open>switch_to\<close> makes the chosen process the current one.\<close>

definition switch_to :: "nat \<Rightarrow> kernel \<Rightarrow> kernel" where
  "switch_to p k = k\<lparr>curr_proc := p\<rparr>"

definition run_next :: "config \<Rightarrow> nat \<Rightarrow> kernel \<Rightarrow> kernel" where
  "run_next c nxt k =
     (let p = proctab k nxt;
          p1 = p\<lparr>priority := PRIO_USER c, state := PROC_RUNNING, counter := PROC_QUANTUM c\<rparr>;
          p2 = p1\<lparr>tickets := priority p1 * (- 1) + NORMALIZATION_VALUE c - nice p1\<rparr>;
          p3 = p2\<lparr>compensation := 0\<rparr>
      in switch_to nxt (k\<lparr>proctab := (proctab k)(nxt := p3)\<rparr>))"

text \<open>The process that \<open>yield\<close> picks, once \<open>total_tickets\<close> is known (lines 122 to 141).\<close>

definition yield_next :: "config \<Rightarrow> cint \<Rightarrow> kernel \<Rightarrow> nat" where
  "yield_next c total_tickets k =
     find_winner (proctab k) (next_process k total_tickets) 0 (procs c) (IDLE c)"

definition yield :: "config \<Rightarrow> (cint \<Rightarrow> cint \<Rightarrow> cint \<Rightarrow> cint) \<Rightarrow> kernel \<Rightarrow> kernel" where
  "yield c fcompute k =
     (let k1 = (if state (proctab k (curr_proc k)) = PROC_RUNNING
                then sched_at (curr_proc k) (add_compensation c fcompute k) else k);
          k2 = k1\<lparr>last_proc := curr_proc k1\<rparr>;
          (total_tickets, k3) = count_tickets c (procs c) 0 k2
      in run_next c (yield_next c total_tickets k3) k3)"

definition stop :: "config \<Rightarrow> (cint \<Rightarrow> cint \<Rightarrow> cint \<Rightarrow> cint) \<Rightarrow> kernel \<Rightarrow> kernel" where
  "stop c fcompute k =
     (let k1 = k\<lparr>proctab := (proctab k)(curr_proc k :=
                   (proctab k (curr_proc k))\<lparr>state := PROC_STOPPED\<rparr>)\<rparr>
      in yield c fcompute (sndsig (father (proctab k1 (curr_proc k1))) SIGCHLD k1))"

section \<open>The block buffer cache\<close>

subsection \<open>What the cache calls\<close>

text \<open>
  Modelled from the spec: \<open>disable_interrupts\<close> and \<open>enable_interrupts\<close> are the
  interrupt-masking primitives of the hardware layer.
\<close>

definition disable_interrupts :: "kernel \<Rightarrow> kernel" where
  "disable_interrupts k = k\<lparr>interrupts := False\<rparr>"

definition enable_interrupts :: "kernel \<Rightarrow> kernel" where
  "enable_interrupts k = k\<lparr>interrupts := True\<rparr>"

text \<open>A chain of sleeping processes is either the one of a buffer or the file-level one.\<close>

datatype chainptr = Buffer_chain bufptr | Any_free_chain

text \<open>
  Modelled from the spec: \<open>wakeup\<close> moves every sleeper of the chain to \<open>PROC_READY\<close>, with
  \<open>sched\<close>, and leaves the chain empty.
\<close>

definition wakeup :: "chainptr \<Rightarrow> kernel \<Rightarrow> kernel" where
  "wakeup q k =
     (case q of
        Any_free_chain \<Rightarrow> (fold sched_at (any_free_chain k) k)\<lparr>any_free_chain := []\<rparr>
      | Buffer_chain b \<Rightarrow>
          (let k' = fold sched_at (chain (mem k b)) k
           in k'\<lparr>mem := (mem k')(b := (mem k' b)\<lparr>chain := []\<rparr>)\<rparr>))"

text \<open>
  What a kernel routine can come to. \<open>kpanic\<close> halts the system: \<open>Panic\<close> holds its message
  and the state it halts in. \<open>sleep\<close> suspends the caller until another process wakes it
  up; the caller then goes on in the state the others have left. The states found at the
  successive wake-ups are an argument of every routine that may sleep, and a routine that
  has used them all up and sleeps again ends as \<open>Asleep\<close>. \<open>Hang\<close> is a walk of a hash bucket
  that never comes back to the bucket head.
\<close>

datatype 'a outcome =
  Return 'a kernel
| Panic string kernel
| Asleep chainptr kernel
| Hang kernel

text \<open>Modelled from the spec: the block device driver. A read makes the buffer valid.\<close>

definition bdev_readblk :: "bufptr \<Rightarrow> kernel \<Rightarrow> kernel" where
  "bdev_readblk buf k =
     k\<lparr>mem := (mem k)(buf := (mem k buf)\<lparr>flags := flags (mem k buf) OR BUFFER_VALID\<rparr>),
       devlog := Read_block buf # devlog k\<rparr>"

text \<open>Modelled from the spec: a write makes the buffer clean.\<close>

definition bdev_writeblk :: "bufptr \<Rightarrow> kernel \<Rightarrow> kernel" where
  "bdev_writeblk buf k =
     k\<lparr>mem := (mem k)(buf := (mem k buf)\<lparr>flags := flags (mem k buf) AND NOT BUFFER_DIRTY\<rparr>),
       devlog := Write_block buf # devlog k\<rparr>"

subsection \<open>The routines of \<open>buffer.c\<close>\<close>

definition HASH :: "config \<Rightarrow> cint \<Rightarrow> cint \<Rightarrow> nat" where
  "HASH c d b = unat (d XOR b) mod BUFFERS_HASHTAB_SIZE c"

text \<open>An assignment through a pointer: \<open>upd p f\<close> is \<open>*p = f(*p)\<close>.\<close>

definition upd :: "bufptr \<Rightarrow> (buffer \<Rightarrow> buffer) \<Rightarrow> kernel \<Rightarrow> kernel" where
  "upd p f k = k\<lparr>mem := (mem k)(p := f (mem k p))\<rparr>"

definition is_set :: "cint \<Rightarrow> bufptr \<Rightarrow> kernel \<Rightarrow> bool" where
  "is_set flag buf k = (flags (mem k buf) AND flag \<noteq> 0)"

text \<open>
  The two assignments that take a buffer out of the free list (lines 133 and 134, 156 and
  157, 357 and 358). The second one reads the memory that the first one has written.
\<close>

definition free_remove :: "bufptr \<Rightarrow> kernel \<Rightarrow> kernel" where
  "free_remove buf k =
     (let k1 = upd (free_prev (mem k buf)) (\<lambda>b. b\<lparr>free_next := free_next (mem k buf)\<rparr>) k
      in upd (free_next (mem k1 buf)) (\<lambda>b. b\<lparr>free_prev := free_prev (mem k1 buf)\<rparr>) k1)"

text \<open>\<open>buf->count++\<close> (lines 131, 158 and 355).\<close>

definition take_reference :: "bufptr \<Rightarrow> kernel \<Rightarrow> kernel" where
  "take_reference buf k = upd buf (\<lambda>b. b\<lparr>count := count b + 1\<rparr>) k"

text \<open>Lines 263 to 266: the buffer goes to the end of the free list.\<close>

definition free_insert_end :: "bufptr \<Rightarrow> kernel \<Rightarrow> kernel" where
  "free_insert_end buf k =
     (let k1 = upd (free_prev (mem k Free_buffers)) (\<lambda>b. b\<lparr>free_next := buf\<rparr>) k;
          k2 = upd buf (\<lambda>b. b\<lparr>free_prev := free_prev (mem k1 Free_buffers)\<rparr>) k1;
          k3 = upd Free_buffers (\<lambda>b. b\<lparr>free_prev := buf\<rparr>) k2
      in upd buf (\<lambda>b. b\<lparr>free_next := Free_buffers\<rparr>) k3)"

text \<open>Lines 272 to 275: the buffer goes to the beginning of the free list.\<close>

definition free_insert_begin :: "bufptr \<Rightarrow> kernel \<Rightarrow> kernel" where
  "free_insert_begin buf k =
     (let k1 = upd (free_next (mem k Free_buffers)) (\<lambda>b. b\<lparr>free_prev := buf\<rparr>) k;
          k2 = upd buf (\<lambda>b. b\<lparr>free_prev := Free_buffers\<rparr>) k1;
          k3 = upd buf (\<lambda>b. b\<lparr>free_next := free_next (mem k2 Free_buffers)\<rparr>) k2
      in upd Free_buffers (\<lambda>b. b\<lparr>free_next := buf\<rparr>) k3)"

text \<open>Lines 174 and 175: the buffer leaves its hash queue.\<close>

definition hash_remove :: "bufptr \<Rightarrow> kernel \<Rightarrow> kernel" where
  "hash_remove buf k =
     (let k1 = upd (hash_prev (mem k buf)) (\<lambda>b. b\<lparr>hash_next := hash_next (mem k buf)\<rparr>) k
      in upd (hash_next (mem k1 buf)) (\<lambda>b. b\<lparr>hash_prev := hash_prev (mem k1 buf)\<rparr>) k1)"

text \<open>Lines 183 to 186: the buffer enters the hash queue \<open>i\<close> at its beginning.\<close>

definition hash_insert :: "nat \<Rightarrow> bufptr \<Rightarrow> kernel \<Rightarrow> kernel" where
  "hash_insert i buf k =
     (let k1 = upd (hash_next (mem k (Hashtab i))) (\<lambda>b. b\<lparr>hash_prev := buf\<rparr>) k;
          k2 = upd buf (\<lambda>b. b\<lparr>hash_prev := Hashtab i\<rparr>) k1;
          k3 = upd buf (\<lambda>b. b\<lparr>hash_next := hash_next (mem k2 (Hashtab i))\<rparr>) k2
      in upd (Hashtab i) (\<lambda>b. b\<lparr>hash_next := buf\<rparr>) k3)"

text \<open>
  \<open>blklock\<close>: the loop sleeps as long as the buffer is locked; \<open>es\<close> are the states found at
  the wake-ups, and the ones that are left are returned with the result.
\<close>

fun blklock_wait :: "bufptr \<Rightarrow> kernel \<Rightarrow> kernel list \<Rightarrow> (kernel list) outcome" where
  "blklock_wait buf k [] =
     (if is_set BUFFER_LOCKED buf k then Asleep (Buffer_chain buf) k
      else Return [] (enable_interrupts (upd buf (\<lambda>b. b\<lparr>flags := flags b OR BUFFER_LOCKED\<rparr>) k)))"
| "blklock_wait buf k (e # es) =
     (if is_set BUFFER_LOCKED buf k then blklock_wait buf e es
      else Return (e # es)
             (enable_interrupts (upd buf (\<lambda>b. b\<lparr>flags := flags b OR BUFFER_LOCKED\<rparr>) k)))"

definition blklock :: "bufptr \<Rightarrow> kernel \<Rightarrow> kernel list \<Rightarrow> (kernel list) outcome" where
  "blklock buf k es = blklock_wait buf (disable_interrupts k) es"

definition blkunlock :: "bufptr \<Rightarrow> kernel \<Rightarrow> kernel" where
  "blkunlock buf k =
     enable_interrupts
       (wakeup (Buffer_chain buf)
          (upd buf (\<lambda>b. b\<lparr>flags := flags b AND NOT BUFFER_LOCKED\<rparr>) (disable_interrupts k)))"

text \<open>
  The search of a hash bucket (the \<open>for\<close> loop of line 114), from \<open>buf\<close> on: \<open>Some None\<close> when
  the walk is back at the bucket head, \<open>Some (Some b)\<close> at the first buffer \<open>b\<close> that holds
  the block, and \<open>None\<close> when the walk never ends.
\<close>

partial_function (option) hash_search ::
  "(bufptr \<Rightarrow> buffer) \<Rightarrow> bufptr \<Rightarrow> cint \<Rightarrow> cint \<Rightarrow> bufptr \<Rightarrow> bufptr option option" where
  "hash_search m head d n buf =
     (if buf = head then Some None
      else if dev (m buf) \<noteq> d \<or> num (m buf) \<noteq> n
      then hash_search m head d n (hash_next (m buf))
      else Some (Some buf))"

declare hash_search.simps [code]

text \<open>
  One pass of \<open>getblk\<close> from the label \<open>repeat\<close>: either the routine is over, or it has
  called \<open>sleep\<close> on a chain and will \<open>goto repeat\<close>.
\<close>

datatype pass = Finished "(bufptr \<times> kernel list) outcome" | Goto_repeat chainptr kernel

definition lock_and_return :: "bufptr \<Rightarrow> kernel \<Rightarrow> kernel list \<Rightarrow> (bufptr \<times> kernel list) outcome" where
  "lock_and_return buf k es =
     (case blklock buf k es of
        Return es' k' \<Rightarrow> Return (buf, es') (enable_interrupts k')
      | Panic msg k' \<Rightarrow> Panic msg k'
      | Asleep q k' \<Rightarrow> Asleep q k'
      | Hang k' \<Rightarrow> Hang k')"

definition getblk_pass :: "config \<Rightarrow> cint \<Rightarrow> cint \<Rightarrow> kernel \<Rightarrow> kernel list \<Rightarrow> pass" where
  "getblk_pass c d n k es =
     (let i = HASH c d n;
          k1 = disable_interrupts k
      in case hash_search (mem k1) (Hashtab i) d n (hash_next (mem k1 (Hashtab i))) of
           None \<Rightarrow> Finished (Hang k1)
         | Some (Some buf) \<Rightarrow>
             if is_set BUFFER_LOCKED buf k1 then Goto_repeat (Buffer_chain buf) k1
             else
               (let k2 = take_reference buf k1;
                    k3 = (if count (mem k1 buf) = 0 then free_remove buf k2 else k2)
                in Finished (lock_and_return buf k3 es))
         | Some None \<Rightarrow>
             if free_next (mem k1 Free_buffers) = Free_buffers
             then Goto_repeat Any_free_chain k1
             else
               (let buf = free_next (mem k1 Free_buffers);
                    k2 = free_remove buf k1;
                    k3 = take_reference buf k2
                in if is_set BUFFER_DIRTY buf k3
                   then Finished (Panic ''fs: asynchronous write'' k3)
                   else
                     (let k4 = hash_remove buf k3;
                          k5 = upd buf (\<lambda>b. b\<lparr>dev := d, num := n,
                                 flags := flags b AND NOT BUFFER_VALID\<rparr>) k4;
                          k6 = hash_insert i buf k5
                      in Finished (lock_and_return buf k6 es))))"

function getblk_repeat ::
  "config \<Rightarrow> cint \<Rightarrow> cint \<Rightarrow> kernel \<Rightarrow> kernel list \<Rightarrow> (bufptr \<times> kernel list) outcome" where
  "getblk_repeat c d n k es =
     (case getblk_pass c d n k es of
        Finished r \<Rightarrow> r
      | Goto_repeat q k' \<Rightarrow>
          (case es of [] \<Rightarrow> Asleep q k' | e # es' \<Rightarrow> getblk_repeat c d n e es'))"
  by pat_completeness auto
termination
  by (relation "measure (\<lambda>(c, d, n, k, es). length es)") auto

declare getblk_repeat.simps [simp del]

definition getblk ::
  "config \<Rightarrow> cint \<Rightarrow> cint \<Rightarrow> kernel \<Rightarrow> kernel list \<Rightarrow> (bufptr \<times> kernel list) outcome" where
  "getblk c d n k es =
     (if d = 0 \<and> n = 0 then Panic ''getblk(0, 0)'' k else getblk_repeat c d n k es)"

definition brelse :: "bufptr \<Rightarrow> kernel \<Rightarrow> unit outcome" where
  "brelse buf k =
     (let k1 = disable_interrupts k;
          k2 = upd buf (\<lambda>b. b\<lparr>count := count b - 1\<rparr>) k1;
          k3 = (if count (mem k2 buf) = 0
                then (let k' = wakeup Any_free_chain k2
                      in if is_set BUFFER_VALID buf k' \<and> is_set BUFFER_DIRTY buf k'
                         then free_insert_end buf k'
                         else free_insert_begin buf k')
                else k2)
      in if count (mem k3 buf) <s 0 then Panic ''fs: freeing buffer twice'' k3
         else Return () (enable_interrupts (blkunlock buf k3)))"

definition bread ::
  "config \<Rightarrow> cint \<Rightarrow> cint \<Rightarrow> kernel \<Rightarrow> kernel list \<Rightarrow> (bufptr \<times> kernel list) outcome" where
  "bread c d n k es =
     (case getblk c d n k es of
        Return (buf, es') k' \<Rightarrow>
          if is_set BUFFER_VALID buf k' then Return (buf, es') k'
          else Return (buf, es') (bdev_readblk buf k')
      | Panic msg k' \<Rightarrow> Panic msg k'
      | Asleep q k' \<Rightarrow> Asleep q k'
      | Hang k' \<Rightarrow> Hang k')"

definition bwrite :: "bufptr \<Rightarrow> kernel \<Rightarrow> kernel" where
  "bwrite buf k = bdev_writeblk buf k"

text \<open>
  \<open>binit\<close>: the first loop writes every field of every buffer, with \<open>ptr\<close> running through
  the data area; then the list head and the bucket heads are set.
\<close>

definition binit_buffer :: "config \<Rightarrow> nat \<Rightarrow> cint \<times> kernel \<Rightarrow> cint \<times> kernel" where
  "binit_buffer c i = (\<lambda>(ptr, k).
     (ptr + BLOCK_SIZE c,
      upd (Buffers i) (\<lambda>b. b\<lparr>
        dev := 0, num := 0, data := ptr, count := 0,
        flags := NOT (BUFFER_VALID OR BUFFER_BUSY OR BUFFER_LOCKED OR BUFFER_DIRTY),
        chain := [],
        free_next := (if i + 1 = NR_BUFFERS c then Free_buffers else Buffers (i + 1)),
        free_prev := (if i = 0 then Free_buffers else Buffers (i - 1)),
        hash_next := Buffers i,
        hash_prev := Buffers i\<rparr>) k))"

definition binit_bucket :: "nat \<Rightarrow> kernel \<Rightarrow> kernel" where
  "binit_bucket i k = upd (Hashtab i) (\<lambda>b. b\<lparr>hash_prev := Hashtab i, hash_next := Hashtab i\<rparr>) k"

definition binit :: "config \<Rightarrow> kernel \<Rightarrow> kernel" where
  "binit c k =
     (let k1 = snd (fold (binit_buffer c) [0 ..< NR_BUFFERS c] (BUFFERS_VIRT c, k));
          k2 = upd Free_buffers (\<lambda>b. b\<lparr>free_next := Buffers 0\<rparr>) k1;
          k3 = upd Free_buffers (\<lambda>b. b\<lparr>free_prev := Buffers (NR_BUFFERS c - 1)\<rparr>) k2
      in fold binit_bucket [0 ..< BUFFERS_HASHTAB_SIZE c] k3)"

text \<open>
  \<open>bsync\<close>, one buffer at a time. \<open>bsync\<close> does not disable the interrupts: they are as
  \<open>blklock\<close> has left them.
\<close>

definition bsync_buffer :: "bufptr \<Rightarrow> kernel \<Rightarrow> kernel list \<Rightarrow> (kernel list) outcome" where
  "bsync_buffer buf k es =
     (case blklock buf k es of
        Return es' k1 \<Rightarrow>
          if \<not> is_set BUFFER_VALID buf k1 then Return es' (blkunlock buf k1)
          else
            (let k2 = take_reference buf k1;
                 k3 = (if count (mem k1 buf) = 0 then free_remove buf k2 else k2)
             in Return es' (bdev_writeblk buf k3))
      | Panic msg k' \<Rightarrow> Panic msg k'
      | Asleep q k' \<Rightarrow> Asleep q k'
      | Hang k' \<Rightarrow> Hang k')"

fun bsync_loop :: "nat list \<Rightarrow> kernel \<Rightarrow> kernel list \<Rightarrow> (kernel list) outcome" where
  "bsync_loop [] k es = Return es k"
| "bsync_loop (i # js) k es =
     (case bsync_buffer (Buffers i) k es of
        Return es' k' \<Rightarrow> bsync_loop js k' es'
      | Panic msg k' \<Rightarrow> Panic msg k'
      | Asleep q k' \<Rightarrow> Asleep q k'
      | Hang k' \<Rightarrow> Hang k')"

definition bsync :: "config \<Rightarrow> kernel \<Rightarrow> kernel list \<Rightarrow> (kernel list) outcome" where
  "bsync c k es = bsync_loop [0 ..< NR_BUFFERS c] k es"

section \<open>Notions used in the statements\<close>

text \<open>The state in which a routine ends.\<close>

fun state_of :: "'a outcome \<Rightarrow> kernel" where
  "state_of (Return x k) = k"
| "state_of (Panic msg k) = k"
| "state_of (Asleep q k) = k"
| "state_of (Hang k) = k"

text \<open>
  The sum of tickets and compensation over the ready processes of a list, as the spec
  words \<open>total_tickets\<close>.
\<close>

definition ready_tickets :: "(nat \<Rightarrow> process) \<Rightarrow> nat list \<Rightarrow> cint" where
  "ready_tickets tab ps =
     sum_list (map (\<lambda>p. tickets (tab p) + compensation (tab p))
                   (filter (\<lambda>p. state (tab p) = PROC_READY) ps))"

text \<open>
  The compensation as the spec words it, in exact arithmetic: \<open>tickets / fraction - tickets\<close>
  with the quotient truncated toward zero, where \<open>fraction\<close> is the used part of the quantum.
\<close>

definition exact_compensation :: "int \<Rightarrow> int \<Rightarrow> int \<Rightarrow> int" where
  "exact_compensation quantum cnt tck =
     (let fraction = (of_int (quantum - cnt) :: rat) / of_int quantum
      in c_truncate (of_int tck / fraction) - tck)"

text \<open>Two process tables in which every process has the same state and the same tickets.\<close>

definition same_lottery :: "(nat \<Rightarrow> process) \<Rightarrow> (nat \<Rightarrow> process) \<Rightarrow> bool" where
  "same_lottery tab tab' =
     (\<forall>p. state (tab' p) = state (tab p) \<and> tickets (tab' p) = tickets (tab p)
          \<and> compensation (tab' p) = compensation (tab p))"

text \<open>
  The free list is the buffers \<open>xs\<close>, in this order: from \<open>free_buffers\<close> the \<open>free_next\<close>
  pointers run through them and back to \<open>free_buffers\<close>, and the \<open>free_prev\<close> pointers run
  the other way.
\<close>

fun free_seg :: "(bufptr \<Rightarrow> buffer) \<Rightarrow> bufptr \<Rightarrow> bufptr \<Rightarrow> nat list \<Rightarrow> bool" where
  "free_seg m prev p [] = (p = Free_buffers \<and> free_prev (m Free_buffers) = prev)"
| "free_seg m prev p (x # xs) =
     (p = Buffers x \<and> free_prev (m p) = prev \<and> free_seg m p (free_next (m p)) xs)"

definition free_list :: "(bufptr \<Rightarrow> buffer) \<Rightarrow> nat list \<Rightarrow> bool" where
  "free_list m xs = (distinct xs \<and> free_seg m Free_buffers (free_next (m Free_buffers)) xs)"

text \<open>
  The hash queue \<open>i\<close> is the buffers \<open>bs\<close>, in this order: from the bucket head the
  \<open>hash_next\<close> pointers run through them and back to the head.
\<close>

fun hash_seg :: "(bufptr \<Rightarrow> buffer) \<Rightarrow> bufptr \<Rightarrow> bufptr \<Rightarrow> bufptr list \<Rightarrow> bool" where
  "hash_seg m head p [] = (p = head)"
| "hash_seg m head p (b # bs) = (p = b \<and> b \<noteq> head \<and> hash_seg m head (hash_next (m b)) bs)"

definition hash_bucket :: "(bufptr \<Rightarrow> buffer) \<Rightarrow> nat \<Rightarrow> bufptr list \<Rightarrow> bool" where
  "hash_bucket m i bs = hash_seg m (Hashtab i) (hash_next (m (Hashtab i))) bs"

text \<open>
  What \<open>getblk\<close> relies on in a state: the hash queue of the block is well formed, no
  reference count is negative or at \<open>INT_MAX\<close>, and the buffer at the head of the free list
  is not locked.
\<close>

definition getblk_ready :: "config \<Rightarrow> cint \<Rightarrow> cint \<Rightarrow> kernel \<Rightarrow> bool" where
  "getblk_ready c d n k =
     ((\<exists>bs. hash_bucket (mem k) (HASH c d n) bs)
      \<and> (\<forall>p. 0 \<le> sint (count (mem k p)) \<and> sint (count (mem k p)) < 2147483647)
      \<and> \<not> is_set BUFFER_LOCKED (free_next (mem k Free_buffers)) k)"

text \<open>The value that \<open>binit\<close> gives the buffer \<open>i\<close>.\<close>

definition init_buffer :: "config \<Rightarrow> nat \<Rightarrow> buffer \<Rightarrow> buffer" where
  "init_buffer c i b = b\<lparr>
        dev := 0, num := 0, data := BUFFERS_VIRT c + of_nat i * BLOCK_SIZE c, count := 0,
        flags := NOT (BUFFER_VALID OR BUFFER_BUSY OR BUFFER_LOCKED OR BUFFER_DIRTY),
        chain := [],
        free_next := (if i + 1 = NR_BUFFERS c then Free_buffers else Buffers (i + 1)),
        free_prev := (if i = 0 then Free_buffers else Buffers (i - 1)),
        hash_next := Buffers i,
        hash_prev := Buffers i\<rparr>"

text \<open>
  What a call of \<open>getblk\<close> for the block \<open>(d, n)\<close> may come to: it returns a locked buffer
  that holds the block, with a reference; or it panics on a dirty buffer at the head of the
  free list; or it is still asleep, on the chain of a locked buffer that holds the block
  or, with no free buffer, on the file-level chain.
\<close>

definition getblk_post :: "cint \<Rightarrow> cint \<Rightarrow> (bufptr \<times> kernel list) outcome \<Rightarrow> bool" where
  "getblk_post d n r =
     (case r of
        Return (buf, es') k' \<Rightarrow>
          dev (mem k' buf) = d \<and> num (mem k' buf) = n \<and> is_set BUFFER_LOCKED buf k'
          \<and> 1 \<le> sint (count (mem k' buf))
      | Panic msg k' \<Rightarrow> msg = ''fs: asynchronous write''
      | Asleep q k' \<Rightarrow>
          (case q of
             Any_free_chain \<Rightarrow> free_next (mem k' Free_buffers) = Free_buffers
           | Buffer_chain b \<Rightarrow>
               is_set BUFFER_LOCKED b k' \<and> dev (mem k' b) = d \<and> num (mem k' b) = n)
      | Hang k' \<Rightarrow> False)"

text \<open>
  A state in which \<open>bread(d, n)\<close> misses and gets the buffer \<open>v\<close> at once: the hash queue of
  the block is well formed and none of its buffers holds the block, and the buffer \<open>v\<close> at
  the head of the free list is clean, unlocked and without a reference.
\<close>

definition block_uncached :: "config \<Rightarrow> cint \<Rightarrow> cint \<Rightarrow> nat \<Rightarrow> kernel \<Rightarrow> bool" where
  "block_uncached c d n v k =
     ((\<exists>bs. hash_bucket (mem k) (HASH c d n) bs
            \<and> (\<forall>b\<in>set bs. \<not> (dev (mem k b) = d \<and> num (mem k b) = n)))
      \<and> free_next (mem k Free_buffers) = Buffers v
      \<and> \<not> is_set BUFFER_DIRTY (Buffers v) k
      \<and> \<not> is_set BUFFER_LOCKED (Buffers v) k
      \<and> count (mem k (Buffers v)) = 0)"

text \<open>
  The invariant of the reference counts: the free list is well formed and holds exactly the
  buffers of the pool whose count is 0.
\<close>

definition count_invariant :: "config \<Rightarrow> kernel \<Rightarrow> bool" where
  "count_invariant c k =
     (\<exists>xs. free_list (mem k) xs
           \<and> set xs = {i. i < NR_BUFFERS c \<and> count (mem k (Buffers i)) = 0})"

subsection \<open>A small configuration\<close>

text \<open>
  Four buffers, as in the eviction scenario of the spec, a quantum of 100 ticks, as in its
  compensation scenario, and a process table with \<open>IDLE\<close> and two more processes.
\<close>

definition small_config :: config where
  "small_config =
     \<lparr>NR_BUFFERS = 4, BUFFERS_HASHTAB_SIZE = 3, BLOCK_SIZE = 1024, BUFFERS_VIRT = 0xC0000000,
      PROC_QUANTUM = 100, PRIO_USER = 40, NORMALIZATION_VALUE = 100,
      IDLE = 0, FIRST_PROC = 1, LAST_PROC = 2, IS_VALID = (\<lambda>p. state p \<noteq> PROC_DEAD)\<rparr>"

definition zero_buffer :: buffer where
  "zero_buffer =
     \<lparr>dev = 0, num = 0, data = 0, count = 0, flags = 0, chain = [],
      free_next = Free_buffers, free_prev = Free_buffers,
      hash_next = Free_buffers, hash_prev = Free_buffers\<rparr>"

definition ready_process :: "cint \<Rightarrow> process" where
  "ready_process t =
     \<lparr>state = PROC_READY, counter = 0, priority = 40, nice = 0, tickets = t,
      compensation = 0, alarm = 0, received = {}, father = 0\<rparr>"

text \<open>
  A kernel at tick \<open>t\<close> in which \<open>IDLE\<close> runs and the processes 1 and 2 are ready with 10
  and 30 tickets: the lottery scenario of the spec.
\<close>

definition lottery_kernel :: "cint \<Rightarrow> kernel" where
  "lottery_kernel t =
     \<lparr>mem = (\<lambda>p. zero_buffer), any_free_chain = [],
      proctab = (\<lambda>p. (ready_process 0)\<lparr>state := PROC_RUNNING\<rparr>)
                  (1 := ready_process 10, 2 := ready_process 30),
      curr_proc = 0, last_proc = 0, ticks = t, interrupts = True, devlog = []\<rparr>"

text \<open>
  A kernel in which process 1 runs with \<open>cnt\<close> ticks of its quantum left and \<open>t\<close> tickets,
  and no other process of the table is ready: the compensation scenario of the spec.
\<close>

definition yielding_kernel :: "cint \<Rightarrow> cint \<Rightarrow> kernel" where
  "yielding_kernel cnt t =
     \<lparr>mem = (\<lambda>p. zero_buffer), any_free_chain = [],
      proctab = (\<lambda>p. (ready_process 0)\<lparr>state := PROC_WAITING\<rparr>)
                  (0 := ready_process 0,
                   1 := (ready_process t)\<lparr>state := PROC_RUNNING, counter := cnt\<rparr>),
      curr_proc = 1, last_proc = 0, ticks = 0, interrupts = True, devlog = []\<rparr>"

text \<open>The buffer cache of the small configuration, just initialised.\<close>

definition fresh_cache :: kernel where
  "fresh_cache = binit small_config (lottery_kernel 0)"

text \<open>The cache after \<open>bread(1, 10)\<close>: the caller holds buffer 0.\<close>

definition read_cache :: kernel where
  "read_cache = state_of (bread small_config 1 10 fresh_cache [])"

text \<open>
  Modelled from the spec: a process that sleeps is on the chain it sleeps on, in state
  \<open>PROC_WAITING\<close>.
\<close>

definition sleeping :: "chainptr \<Rightarrow> nat \<Rightarrow> kernel \<Rightarrow> kernel" where
  "sleeping q p k =
     (let k' = k\<lparr>proctab := (proctab k)(p := (proctab k p)\<lparr>state := PROC_WAITING\<rparr>)\<rparr>
      in case q of
           Any_free_chain \<Rightarrow> k'\<lparr>any_free_chain := p # any_free_chain k'\<rparr>
         | Buffer_chain b \<Rightarrow> upd b (\<lambda>x. x\<lparr>chain := p # chain x\<rparr>) k')"

text \<open>
  The same cache with process 1 asleep on buffer 0 and process 2 asleep on the file-level
  chain.
\<close>

definition waiting_cache :: kernel where
  "waiting_cache = sleeping Any_free_chain 2 (sleeping (Buffer_chain (Buffers 0)) 1 read_cache)"

text \<open>The cache after \<open>bread(1, 10)\<close> and \<open>brelse\<close>: buffer 0 is valid and free.\<close>

definition released_cache :: kernel where
  "released_cache = state_of (brelse (Buffers 0) read_cache)"

text \<open>
  Block (1, 4), of the same hash queue, is read while buffer 0 is held, and both buffers are
  released: the queue holds buffer 1 with block (1, 4) and then buffer 0 with block (1, 10).
\<close>

definition two_blocks_cache :: kernel where
  "two_blocks_cache =
     state_of (brelse (Buffers 0)
       (state_of (brelse (Buffers 1)
         (state_of (bread small_config 1 4 read_cache [])))))"

text \<open>
  Modelled from the spec: a process that holds a buffer and has changed its data sets
  \<open>BUFFER_DIRTY\<close>.
\<close>

definition mark_dirty :: "bufptr \<Rightarrow> kernel \<Rightarrow> kernel" where
  "mark_dirty buf k = upd buf (\<lambda>b. b\<lparr>flags := flags b OR BUFFER_DIRTY\<rparr>) k"

text \<open>
  The holder of buffer 0 changes its data and releases it: the buffer is valid and dirty
  and goes to the end of the free list.
\<close>

definition dirty_released :: kernel where
  "dirty_released = state_of (brelse (Buffers 0) (mark_dirty (Buffers 0) read_cache))"

text \<open>
  Then three more blocks are read and kept: the dirty buffer 0 is the only free buffer.
\<close>

definition dirty_cache :: kernel where
  "dirty_cache =
     state_of (bread small_config 1 13
       (state_of (bread small_config 1 12
         (state_of (bread small_config 1 11 dirty_released [])) [])) [])"


section \<open>Machine arithmetic\<close>

lemma sint_of_int_cint:
  "- 2147483648 \<le> i \<Longrightarrow> i < 2147483648 \<Longrightarrow> sint (word_of_int i :: cint) = i"
  by (simp add: sint_sbintrunc' signed_take_bit_int_eq_self)

lemma sint_uint_cint:
  assumes "uint w < 2147483648"
  shows "sint (w::cint) = uint w"
proof -
  have "- (2 ^ 31) \<le> uint w" by (rule order_trans [of _ 0]) simp_all
  moreover have "uint w < 2 ^ 31" using assms by simp
  ultimately have "signed_take_bit 31 (uint w) = uint w"
    by (rule signed_take_bit_int_eq_self)
  then show ?thesis by (simp add: sint_uint)
qed

lemma sint_plus_cint:
  "- 2147483648 \<le> sint a + sint b \<Longrightarrow> sint a + sint b < 2147483648
   \<Longrightarrow> sint (a + b :: cint) = sint a + sint b"
  by (simp add: sint_word_ariths signed_take_bit_int_eq_self)

lemma sint_minus_cint:
  "- 2147483648 \<le> sint a - sint b \<Longrightarrow> sint a - sint b < 2147483648
   \<Longrightarrow> sint (a - b :: cint) = sint a - sint b"
  by (simp add: sint_word_ariths signed_take_bit_int_eq_self)

lemma sint_times_cint:
  "- 2147483648 \<le> sint a * sint b \<Longrightarrow> sint a * sint b < 2147483648
   \<Longrightarrow> sint (a * b :: cint) = sint a * sint b"
  by (simp add: sint_word_ariths signed_take_bit_int_eq_self)

section \<open>Single-precision arithmetic\<close>

text \<open>The exponent and the rounding of a quotient of two integers.\<close>

lemma ilog2_bounds: "0 < n \<Longrightarrow> 2 ^ ilog2 n \<le> n \<and> n < 2 ^ Suc (ilog2 n)"
proof (induction n rule: ilog2.induct)
  case (1 n)
  show ?case
  proof (cases "n < 2")
    case True
    then show ?thesis using "1.prems" by (simp add: ilog2.simps)
  next
    case False
    then have "0 < n div 2" by simp
    from "1.IH" [OF False this] have "2 ^ ilog2 (n div 2) \<le> n div 2" "n div 2 < 2 ^ Suc (ilog2 (n div 2))"
      by simp_all
    then have "2 * 2 ^ ilog2 (n div 2) \<le> n" "n < 2 * 2 ^ Suc (ilog2 (n div 2))"
      by linarith+
    then show ?thesis using False by (simp add: ilog2.simps [of n])
  qed
qed

lemma float_exponent_bounds:
  assumes "0 < x"
  shows "2 powi (float_exponent x) \<le> x" and "x < 2 powi (float_exponent x + 1)"
proof -
  obtain a b where q: "quotient_of x = (a, b)" by (cases "quotient_of x")
  have b: "0 < b" using quotient_of_denom_pos [OF q] .
  have x: "x = of_int a / of_int b" using quotient_of_div [OF q] .
  have a: "0 < a" using assms b by (simp add: x zero_less_divide_iff)
  define la lb where "la = ilog2 (nat a)" and "lb = ilog2 (nat b)"
  have A: "2 ^ la \<le> nat a" "nat a < 2 ^ Suc la"
    using ilog2_bounds [of "nat a"] a by (simp_all add: la_def)
  have B: "2 ^ lb \<le> nat b" "nat b < 2 ^ Suc lb"
    using ilog2_bounds [of "nat b"] b by (simp_all add: lb_def)
  have ra: "(2 :: rat) ^ la \<le> of_int a" "(of_int a :: rat) < 2 ^ Suc la"
  proof -
    have "(of_nat (2 ^ la) :: rat) \<le> of_nat (nat a)" using A(1) by (simp only: of_nat_le_iff)
    then show "(2 :: rat) ^ la \<le> of_int a" using a by simp
    have "(of_nat (nat a) :: rat) < of_nat (2 ^ Suc la)" using A(2) by (simp only: of_nat_less_iff)
    then show "(of_int a :: rat) < 2 ^ Suc la" using a by simp
  qed
  have rb: "(2 :: rat) ^ lb \<le> of_int b" "(of_int b :: rat) < 2 ^ Suc lb"
  proof -
    have "(of_nat (2 ^ lb) :: rat) \<le> of_nat (nat b)" using B(1) by (simp only: of_nat_le_iff)
    then show "(2 :: rat) ^ lb \<le> of_int b" using b by simp
    have "(of_nat (nat b) :: rat) < of_nat (2 ^ Suc lb)" using B(2) by (simp only: of_nat_less_iff)
    then show "(of_int b :: rat) < 2 ^ Suc lb" using b by simp
  qed
  define e where "e = int la - int lb"
  have p: "(2 :: rat) powi e = 2 ^ la / 2 ^ lb"
    by (simp add: e_def power_int_diff)
  have bpos: "(0 :: rat) < of_int b" using b by simp
  have lo: "2 powi (e - 1) \<le> x"
  proof -
    have "(2 :: rat) powi (e - 1) = 2 ^ la / 2 ^ Suc lb"
      by (simp add: e_def power_int_diff)
    also have "\<dots> \<le> of_int a / 2 ^ Suc lb"
      using ra(1) by (simp add: divide_right_mono)
    also have "\<dots> \<le> of_int a / of_int b"
      using rb(2) bpos a by (intro divide_left_mono) (simp_all add: less_imp_le)
    finally show ?thesis by (simp add: x)
  qed
  have hi: "x < 2 powi (e + 1)"
  proof -
    have "x = of_int a / of_int b" by (rule x)
    also have "\<dots> < 2 ^ Suc la / of_int b"
      using ra(2) bpos by (simp add: divide_strict_right_mono)
    also have "\<dots> \<le> 2 ^ Suc la / 2 ^ lb"
      using rb(1) bpos by (intro divide_left_mono) simp_all
    also have "\<dots> = 2 powi (e + 1)"
      by (simp add: e_def power_int_diff power_int_add)
    finally show ?thesis .
  qed
  have fe: "float_exponent x = (if 2 powi e \<le> x then e else e - 1)"
    by (simp add: float_exponent_def q e_def la_def lb_def Let_def)
  show "2 powi (float_exponent x) \<le> x"
    using lo by (simp add: fe)
  show "x < 2 powi (float_exponent x + 1)"
    using hi by (auto simp: fe not_le)
qed

lemma round_half_even_error: "\<bar>of_int (round_half_even q) - q\<bar> \<le> 1 / 2"
proof -
  have "of_int \<lfloor>q\<rfloor> \<le> q" "q < of_int \<lfloor>q\<rfloor> + 1" by linarith+
  then show ?thesis
    by (auto simp: round_half_even_def Let_def abs_le_iff)
qed

lemma round_half_even_int [simp]: "round_half_even (of_int n) = n"
  by (simp add: round_half_even_def)

text \<open>
  Rounding keeps a number with at most 24 significant bits and changes any other by at
  most one part in \<open>2 ^ 24\<close>.
\<close>

lemma float_exponent_eq:
  assumes "0 < x" "2 powi e \<le> x" "x < 2 powi (e + 1)"
  shows "float_exponent x = e"
proof -
  let ?f = "float_exponent x"
  have "?f < e + 1"
  proof (rule ccontr)
    assume "\<not> ?f < e + 1"
    then have "(2 :: rat) powi (e + 1) \<le> 2 powi ?f"
      by (intro power_int_increasing) simp_all
    then show False
      using float_exponent_bounds(1) [OF assms(1)] assms(3) by linarith
  qed
  moreover have "e < ?f + 1"
  proof (rule ccontr)
    assume "\<not> e < ?f + 1"
    then have "(2 :: rat) powi (?f + 1) \<le> 2 powi e"
      by (intro power_int_increasing) simp_all
    then show False
      using float_exponent_bounds(2) [OF assms(1)] assms(2) by linarith
  qed
  ultimately show ?thesis by simp
qed

lemma float_round_eq:
  assumes "0 < x" "2 powi e \<le> x" "x < 2 powi (e + 1)" "- 126 \<le> e"
  shows "float_round x = of_int (round_half_even (x / 2 powi (e - 23))) * 2 powi (e - 23)"
  using assms by (simp add: float_round_def float_exponent_eq [OF assms(1-3)] Let_def max_def)

lemma float_round_error:
  assumes "2 powi (- 126) \<le> x"
  shows "\<bar>float_round x - x\<bar> \<le> x / 2 ^ 24"
proof -
  have x: "0 < x"
    using assms by (rule less_le_trans [rotated]) simp
  define e where "e = float_exponent x"
  have b: "2 powi e \<le> x" "x < 2 powi (e + 1)"
    using float_exponent_bounds [OF x] by (simp_all add: e_def)
  have e: "- 126 \<le> e"
  proof (rule ccontr)
    assume "\<not> - 126 \<le> e"
    then have "(2 :: rat) powi (e + 1) \<le> 2 powi (- 126)"
      by (intro power_int_increasing) simp_all
    then show False using b(2) assms by linarith
  qed
  define u :: rat where "u = 2 powi (e - 23)"
  have u: "0 < u" by (simp add: u_def)
  have r: "float_round x = of_int (round_half_even (x / u)) * u"
    unfolding u_def by (rule float_round_eq [OF x b e])
  have "\<bar>of_int (round_half_even (x / u)) * u - x\<bar> = \<bar>of_int (round_half_even (x / u)) - x / u\<bar> * u"
  proof -
    have "of_int (round_half_even (x / u)) * u - x = (of_int (round_half_even (x / u)) - x / u) * u"
      using u by (simp add: left_diff_distrib)
    then show ?thesis using u by (simp add: abs_mult)
  qed
  also have "\<dots> \<le> (1 / 2) * u"
    using round_half_even_error [of "x / u"] u by (intro mult_right_mono) simp_all
  also have "\<dots> = 2 powi e / 2 ^ 24"
    by (simp add: u_def power_int_diff)
  also have "\<dots> \<le> x / 2 ^ 24"
    using b(1) by (simp add: divide_right_mono)
  finally show ?thesis by (simp add: r)
qed

lemma float_round_representable:
  assumes "0 < n" "n < 2 ^ 24" "- 126 \<le> k"
  shows "float_round (of_int n * 2 powi k) = of_int n * 2 powi k"
proof -
  let ?x = "of_int n :: rat"
  have x: "0 < ?x" "1 \<le> ?x" "?x < 2 ^ 24" using assms(1,2) by simp_all
  define e where "e = float_exponent ?x"
  have b: "2 powi e \<le> ?x" "?x < 2 powi (e + 1)"
    using float_exponent_bounds [OF x(1)] by (simp_all add: e_def)
  have e0: "0 \<le> e"
  proof (rule ccontr)
    assume "\<not> 0 \<le> e"
    then have "(2 :: rat) powi (e + 1) \<le> 2 powi 0"
      by (intro power_int_increasing) simp_all
    then show False using b(2) x(2) by simp
  qed
  have e23: "e \<le> 23"
  proof (rule ccontr)
    assume "\<not> e \<le> 23"
    then have "(2 :: rat) powi 24 \<le> 2 powi e"
      by (intro power_int_increasing) simp_all
    then show False using b(1) x(3) by simp
  qed
  have p: "(0 :: rat) < 2 powi k" by simp
  have y: "0 < ?x * 2 powi k" using x(1) by simp
  have b1: "2 powi (e + k) \<le> ?x * 2 powi k"
    using b(1) by (simp add: power_int_add)
  have b2: "?x * 2 powi k < 2 powi (e + k + 1)"
  proof -
    have "?x * 2 powi k < 2 powi (e + 1) * 2 powi k"
      using b(2) p by (rule mult_strict_right_mono)
    also have "\<dots> = 2 powi (e + k + 1)"
      by (simp add: power_int_add)
    finally show ?thesis .
  qed
  have ek: "- 126 \<le> e + k" using e0 assms(3) by simp
  have q: "?x * 2 powi k / 2 powi (e + k - 23) = of_int (n * 2 ^ nat (23 - e))"
  proof -
    have "(2 :: rat) powi (e + k - 23) = 2 powi k / 2 powi (23 - e)"
      by (simp add: power_int_diff power_int_add)
    moreover have "(2 :: rat) powi (23 - e) = 2 ^ nat (23 - e)"
      using e23 by (simp add: power_int_def)
    ultimately show ?thesis by simp
  qed
  have "float_round (?x * 2 powi k)
      = of_int (round_half_even (?x * 2 powi k / 2 powi (e + k - 23))) * 2 powi (e + k - 23)"
    by (rule float_round_eq [OF y b1 b2 ek])
  also have "\<dots> = of_int (n * 2 ^ nat (23 - e)) * 2 powi (e + k - 23)"
    unfolding q by (simp only: round_half_even_int)
  also have "\<dots> = ?x * 2 powi k / 2 powi (e + k - 23) * 2 powi (e + k - 23)"
    by (simp only: q)
  also have "\<dots> = ?x * 2 powi k" by simp
  finally show ?thesis .
qed

lemma float_round_of_int:
  assumes "0 \<le> n" "n < 2 ^ 24"
  shows "float_round (of_int n) = of_int n"
proof (cases "n = 0")
  case True
  then show ?thesis by (simp add: float_round_def)
next
  case False
  then have "0 < n" using assms(1) by simp
  from float_round_representable [OF this assms(2), of 0] show ?thesis by simp
qed

text \<open>
  The two divisions of \<open>add_compensation\<close>, on integers \<open>t\<close>, \<open>u\<close> and \<open>q\<close> with \<open>t * q\<close> below
  \<open>2 ^ 22\<close>: the result is within two parts in \<open>2 ^ 24\<close> of \<open>t * q / u\<close>, so that its integer part
  is that of \<open>t * q / u\<close>, or one less when \<open>t * q / u\<close> is an integer.
\<close>

lemma float_round_relative:
  assumes "2 powi (- 126) \<le> x"
  shows "16777216 * float_round x \<le> 16777217 * x" and "16777215 * x \<le> 16777216 * float_round x"
proof -
  have "\<bar>float_round x - x\<bar> \<le> x / 16777216"
    using float_round_error [OF assms] by simp
  then have "float_round x - x \<le> x / 16777216" "x - float_round x \<le> x / 16777216"
    by linarith+
  then show "16777216 * float_round x \<le> 16777217 * x"
    and "16777215 * x \<le> 16777216 * float_round x"
    by (simp_all add: field_simps)
qed

lemma small_normal: "(2 :: rat) powi (- 126) \<le> 1 / 4194304"
proof -
  have "(2 :: rat) powi (- 126) = 1 / 2 ^ 126" by (simp add: power_int_minus_divide)
  then show ?thesis by simp
qed

lemma float_quotient_bounds:
  fixes t u q :: int
  assumes u: "0 < u" "u < q" and t: "0 < t" and m: "t * q < 4194304"
  defines "y \<equiv> float_round (float_round (of_int t)
                   / float_round (float_round (of_int u) / float_round (of_int q)))"
  shows "16777215 * (of_int u * y) \<le> 16777217 * of_int (t * q)"
    and "16777215 * of_int (t * q) \<le> 16777217 * (of_int u * y)"
proof -
  let ?U = "of_int u :: rat" and ?Q = "of_int q :: rat" and ?T = "of_int t :: rat"
  have q: "0 < q" "q < 4194304"
  proof -
    show "0 < q" using u by simp
    have "1 * q \<le> t * q" using t \<open>0 < q\<close> by (intro mult_right_mono) simp_all
    then show "q < 4194304" using m by simp
  qed
  have t': "t < 4194304"
  proof -
    have "t * 1 \<le> t * q" using t q(1) by (intro mult_left_mono) simp_all
    then show ?thesis using m by simp
  qed
  have cu: "float_round ?U = ?U" using u q(2) by (intro float_round_of_int) simp_all
  have cq: "float_round ?Q = ?Q" using q by (intro float_round_of_int) simp_all
  have ct: "float_round ?T = ?T" using t t' by (intro float_round_of_int) simp_all
  have pos: "0 < ?U" "0 < ?Q" "1 \<le> ?T" "?U < ?Q" "?Q < 4194304"
    using u q t by simp_all
  define r where "r = ?U / ?Q"
  define f where "f = float_round r"
  define z where "z = ?T / f"
  have y: "y = float_round z"
    by (simp add: y_def cu cq ct z_def f_def r_def)
  have r: "0 < r" "r * ?Q = ?U" using pos by (simp_all add: r_def)
  have "1 / 4194304 \<le> 1 / ?Q"
    using pos by (intro divide_left_mono) simp_all
  also have "\<dots> \<le> r"
    using pos by (simp add: r_def divide_right_mono)
  finally have rn: "2 powi (- 126) \<le> r" using small_normal by linarith
  have f: "16777216 * f \<le> 16777217 * r" "16777215 * r \<le> 16777216 * f"
    using float_round_relative [OF rn] by (simp_all add: f_def)
  have fpos: "0 < f" using f(2) r(1) by linarith
  have zf: "z * f = ?T" using fpos by (simp add: z_def)
  have zpos: "0 < z" using fpos pos by (simp add: z_def)
  define x where "x = ?T / r"
  have xr: "x * r = ?T" using r(1) by (simp add: x_def)
  have x1: "1 \<le> x"
  proof -
    have "r < 1" using pos by (simp add: r_def)
    then have "r \<le> ?T" using pos by linarith
    then show ?thesis using r(1) by (simp add: x_def)
  qed
  have z1: "16777216 * x \<le> 16777217 * z"
  proof -
    have "16777216 * (x * r) = z * (16777216 * f)" by (simp add: xr zf)
    also have "\<dots> \<le> z * (16777217 * r)"
      using f(1) zpos by (intro mult_left_mono) simp_all
    finally have "(16777216 * x) * r \<le> (16777217 * z) * r" by (simp add: mult_ac)
    then show ?thesis using r(1) by (simp only: mult_le_cancel_right_pos)
  qed
  have z2: "16777215 * z \<le> 16777216 * x"
  proof -
    have "z * (16777215 * r) \<le> z * (16777216 * f)"
      using f(2) zpos by (intro mult_left_mono) simp_all
    also have "\<dots> = 16777216 * (x * r)" by (simp add: xr zf)
    finally have "(16777215 * z) * r \<le> (16777216 * x) * r" by (simp add: mult_ac)
    then show ?thesis using r(1) by (simp only: mult_le_cancel_right_pos)
  qed
  have "1 / 4194304 \<le> z" using z1 x1 by linarith
  then have zn: "2 powi (- 126) \<le> z" using small_normal by linarith
  have yz: "16777216 * y \<le> 16777217 * z" "16777215 * z \<le> 16777216 * y"
    using float_round_relative [OF zn] by (simp_all add: y)
  have ux: "?U * x = of_int (t * q)"
  proof -
    have "?U * x = (r * ?Q) * x" by (simp only: r(2))
    also have "\<dots> = (x * r) * ?Q" by (simp add: mult_ac)
    also have "\<dots> = of_int (t * q)" by (simp add: xr)
    finally show ?thesis .
  qed
  have up: "16777215 * y \<le> 16777217 * x" using yz(1) z2 by linarith
  have lo: "16777215 * x \<le> 16777217 * y" using yz(2) z1 by linarith
  have "?U * (16777215 * y) \<le> ?U * (16777217 * x)"
    using up pos(1) by (intro mult_left_mono) simp_all
  then show "16777215 * (of_int u * y) \<le> 16777217 * of_int (t * q)"
    using ux by (simp add: mult_ac)
  have "?U * (16777215 * x) \<le> ?U * (16777217 * y)"
    using lo pos(1) by (intro mult_left_mono) simp_all
  then show "16777215 * of_int (t * q) \<le> 16777217 * (of_int u * y)"
    using ux by (simp add: mult_ac)
qed

lemma float_quotient_floor:
  fixes t u q :: int
  assumes u: "0 < u" "u < q" and t: "0 < t" and m: "t * q < 4194304"
  defines "y \<equiv> float_round (float_round (of_int t)
                   / float_round (float_round (of_int u) / float_round (of_int q)))"
  shows "\<lfloor>y\<rfloor> = t * q div u \<or> (u dvd t * q \<and> \<lfloor>y\<rfloor> = t * q div u - 1)"
proof -
  define E where "E = t * q div u"
  define d where "d = t * q mod u"
  have md: "t * q = u * E + d" "0 \<le> d" "d < u"
    using u(1) by (simp_all add: E_def d_def)
  have b: "16777215 * (of_int u * y) \<le> 16777217 * of_int (t * q)"
    "16777215 * of_int (t * q) \<le> 16777217 * (of_int u * y)"
    using float_quotient_bounds [OF u t m] by (simp_all add: y_def)
  have U: "(0 :: rat) < of_int u" using u by simp
  have "16777217 * (t * q) < 16777215 * (u * (E + 1))"
    using md m by (simp add: algebra_simps)
  then have "(of_int (16777217 * (t * q)) :: rat) < of_int (16777215 * (u * (E + 1)))"
    by (simp only: of_int_less_iff)
  then have "16777215 * (of_int u * y) < 16777215 * (of_int u * of_int (E + 1))"
    using b(1) by simp
  then have "y < of_int (E + 1)" using U by simp
  then have "\<lfloor>y\<rfloor> < E + 1" by (simp only: floor_less_iff)
  then have hi: "\<lfloor>y\<rfloor> \<le> E" by simp
  have "16777217 * (u * (E - 1)) \<le> 16777215 * (t * q)"
    using md m u by (simp add: algebra_simps)
  then have "(of_int (16777217 * (u * (E - 1))) :: rat) \<le> of_int (16777215 * (t * q))"
    by (simp only: of_int_le_iff)
  then have "16777217 * (of_int u * of_int (E - 1)) \<le> 16777217 * (of_int u * y)"
    using b(2) by simp
  then have "of_int (E - 1) \<le> y" using U by simp
  then have lo: "E - 1 \<le> \<lfloor>y\<rfloor>" by (simp add: le_floor_iff)
  have ex: "E \<le> \<lfloor>y\<rfloor>" if "d \<noteq> 0"
  proof -
    have "16777217 * (u * E) \<le> 16777215 * (t * q)"
      using md m that by (simp add: algebra_simps)
    then have "(of_int (16777217 * (u * E)) :: rat) \<le> of_int (16777215 * (t * q))"
      by (simp only: of_int_le_iff)
    then have "16777217 * (of_int u * of_int E) \<le> 16777217 * (of_int u * y)"
      using b(2) by simp
    then have "of_int E \<le> y" using U by simp
    then show ?thesis by (simp add: le_floor_iff)
  qed
  have "u dvd t * q \<longleftrightarrow> d = 0" by (simp add: d_def dvd_eq_mod_eq_0)
  then show ?thesis using hi lo ex unfolding E_def [symmetric] by auto
qed

text \<open>The same for the machine integers of the scheduler.\<close>

lemma exact_compensation_div:
  assumes "0 < cnt" "cnt < q" "0 \<le> t"
  shows "exact_compensation q cnt t = t * q div (q - cnt) - t"
proof -
  have e: "(of_int t :: rat) / (of_int (q - cnt) / of_int q) = of_int (t * q) / of_int (q - cnt)"
    using assms by simp
  have n: "(0 :: rat) \<le> of_int (t * q) / of_int (q - cnt)"
    using assms by simp
  show ?thesis
    unfolding exact_compensation_def c_truncate_def Let_def e
    using n by (simp only: if_True floor_divide_of_int_eq)
qed

lemma float_compensation_floor:
  assumes "0 < sint cnt" "sint cnt < sint q"
  shows "float_compensation q cnt t =
     word_of_int (c_truncate (float_round (float_round (of_int (sint t))
        / float_round (float_round (of_int (sint q - sint cnt)) / float_round (of_int (sint q)))))) - t"
proof -
  have "sint q < 2147483648" using sint_lt [of q] by simp
  then have "sint (q - cnt) = sint q - sint cnt"
    using assms by (intro sint_minus_cint) simp_all
  then show ?thesis
    by (simp add: float_compensation_def float_of_int_def float_div_def unsigned_of_float_def)
qed

lemma sint_result:
  assumes "sint (t :: cint) \<le> F" "F < 4194304 + sint t" "0 \<le> sint t"
  shows "sint (word_of_int F - t) = F - sint t"
proof -
  have "word_of_int F - t = (word_of_int (F - sint t) :: cint)" by simp
  moreover have "sint (word_of_int (F - sint t) :: cint) = F - sint t"
    using assms by (intro sint_of_int_cint) simp_all
  ultimately show ?thesis by simp
qed

lemma float_compensation_bound:
  assumes c: "0 < sint cnt" "sint cnt < sint q" and t: "0 \<le> sint t"
    and m: "sint t * sint q < 4194304"
  shows "sint (float_compensation q cnt t) = exact_compensation (sint q) (sint cnt) (sint t)
       \<or> ((sint q - sint cnt) dvd sint t * sint q
          \<and> sint (float_compensation q cnt t)
              = exact_compensation (sint q) (sint cnt) (sint t) - 1)"
proof (cases "sint t = 0")
  case True
  moreover have "t = word_of_int (sint t)" by simp
  ultimately have "t = 0" by simp
  then have "float_compensation q cnt t = 0"
    by (simp add: float_compensation_floor [OF c] float_round_def c_truncate_def)
  moreover have "exact_compensation (sint q) (sint cnt) (sint t) = 0"
    using c True by (simp add: exact_compensation_div)
  ultimately show ?thesis by simp
next
  case False
  then have tp: "0 < sint t" using t by simp
  let ?T = "sint t" and ?Q = "sint q" and ?U = "sint q - sint cnt"
  define y where "y = float_round (float_round (of_int ?T)
        / float_round (float_round (of_int ?U) / float_round (of_int ?Q)))"
  define E where "E = ?T * ?Q div ?U"
  have u: "0 < ?U" "?U < ?Q" using c by simp_all
  have fl: "\<lfloor>y\<rfloor> = E \<or> (?U dvd ?T * ?Q \<and> \<lfloor>y\<rfloor> = E - 1)"
    unfolding y_def E_def by (rule float_quotient_floor [OF u tp m])
  have ex: "exact_compensation ?Q (sint cnt) ?T = E - ?T"
    using c t by (simp add: exact_compensation_div E_def)
  have md: "?T * ?Q = ?U * E + ?T * ?Q mod ?U" "0 \<le> ?T * ?Q mod ?U"
    using u(1) by (simp_all add: E_def)
  have "?T * ?U \<le> ?T * ?Q" using u t by (intro mult_left_mono) simp_all
  then have "?T * ?U div ?U \<le> ?T * ?Q div ?U" using u(1) by (rule zdiv_mono1)
  then have Et: "?T \<le> E" using u(1) by (simp add: E_def)
  have E0: "0 \<le> E" using Et t by simp
  have "E * 1 \<le> E * ?U" using E0 u(1) by (intro mult_left_mono) simp_all
  then have El: "E \<le> ?T * ?Q" using md by (simp add: mult.commute)
  have ge: "?T \<le> \<lfloor>y\<rfloor>"
  proof (cases "\<lfloor>y\<rfloor> = E")
    case True
    then show ?thesis using Et by simp
  next
    case False
    then have d: "?U dvd ?T * ?Q" and f: "\<lfloor>y\<rfloor> = E - 1" using fl by simp_all
    have "E * ?U = ?T * ?Q" using d by (simp add: E_def)
    moreover have "?T * ?U < ?T * ?Q" using u tp by simp
    ultimately have "?T * ?U < E * ?U" by simp
    then have "?T < E" using u(1) by (simp only: mult_less_cancel_right_pos)
    then show ?thesis using f by simp
  qed
  have "0 \<le> \<lfloor>y\<rfloor>" using ge t by linarith
  then have y0: "0 \<le> y" by simp
  have "float_compensation q cnt t = word_of_int (c_truncate y) - t"
    unfolding y_def by (rule float_compensation_floor [OF c])
  moreover have "c_truncate y = \<lfloor>y\<rfloor>" using y0 by (simp add: c_truncate_def)
  ultimately have "float_compensation q cnt t = word_of_int \<lfloor>y\<rfloor> - t" by simp
  moreover have "sint (word_of_int \<lfloor>y\<rfloor> - t) = \<lfloor>y\<rfloor> - ?T"
  proof (rule sint_result [OF ge _ t])
    have "\<lfloor>y\<rfloor> \<le> E" using fl by auto
    then show "\<lfloor>y\<rfloor> < 4194304 + ?T" using El m t by linarith
  qed
  ultimately have "sint (float_compensation q cnt t) = \<lfloor>y\<rfloor> - ?T" by simp
  then show ?thesis using fl by (auto simp: ex)
qed

text \<open>
  When the used part of the quantum is \<open>1 / 2 ^ j\<close> of it nothing is rounded. At a quantum
  of 100, a counter of 28 and 18 tickets the first quotient is rounded up and the second
  one down, below 25.
\<close>

lemma float_quotient_power_of_two:
  fixes t u q :: int
  assumes u: "0 < u" and t: "0 < t" and m: "t * q < 4194304" and p: "q = u * 2 ^ j"
  shows "float_round (float_round (of_int t)
           / float_round (float_round (of_int u) / float_round (of_int q))) = of_int (t * 2 ^ j)"
proof -
  have q0: "0 < q" using u by (simp add: p)
  have uq: "u \<le> q"
  proof -
    have "u * 1 \<le> u * 2 ^ j" using u by (intro mult_left_mono) simp_all
    then show ?thesis by (simp add: p)
  qed
  have "1 * q \<le> t * q" using t q0 by (intro mult_right_mono) simp_all
  then have q: "q < 4194304" using m by simp
  have "(2 :: int) ^ j * 1 \<le> 2 ^ j * u" using u by (intro mult_left_mono) simp_all
  then have "(2 :: int) ^ j \<le> u * 2 ^ j" by (simp add: mult.commute)
  then have "(2 :: int) ^ j < 4194304" using p q by linarith
  then have "(2 :: int) ^ j < 2 ^ 22" by simp
  then have j: "j < 22" by (simp only: power_strict_increasing_iff [of 2] one_less_numeral_iff semiring_norm)
  have tj: "t * 2 ^ j \<le> t * q"
  proof -
    have "t * 2 ^ j * 1 \<le> t * 2 ^ j * u" using t u by (intro mult_left_mono) simp_all
    then show ?thesis by (simp add: p mult_ac)
  qed
  have "t * 1 \<le> t * q" using t q0 by (intro mult_left_mono) simp_all
  then have tl: "t < 4194304" using m by linarith
  have cu: "float_round (of_int u) = of_int u"
    using u uq q by (intro float_round_of_int) simp_all
  have cq: "float_round (of_int q) = of_int q"
    using q0 q by (intro float_round_of_int) simp_all
  have ct: "float_round (of_int t) = of_int t"
    using t tl by (intro float_round_of_int) simp_all
  have U0: "(of_int u :: rat) \<noteq> 0" using u by simp
  have "(of_int u :: rat) / of_int q = of_int u / (of_int u * 2 ^ j)"
    by (simp add: p)
  also have "\<dots> = of_int 1 * 2 powi (- int j)"
    using U0 by (simp add: power_int_minus_divide)
  finally have r: "(of_int u :: rat) / of_int q = of_int 1 * 2 powi (- int j)" .
  have fr: "float_round (of_int 1 * 2 powi (- int j)) = of_int 1 * 2 powi (- int j)"
    using j by (intro float_round_representable) simp_all
  have z: "(of_int t :: rat) / (of_int 1 * 2 powi (- int j)) = of_int (t * 2 ^ j)"
    by (simp add: power_int_minus_divide)
  have "0 \<le> t * 2 ^ j" using t by simp
  moreover have "t * 2 ^ j < 2 ^ 24"
  proof -
    have "t * 2 ^ j < 16777216" using tj m by linarith
    then show ?thesis by simp
  qed
  ultimately have zr: "float_round (of_int (t * 2 ^ j)) = of_int (t * 2 ^ j)"
    by (rule float_round_of_int)
  show ?thesis
    unfolding cu cq ct r fr z zr ..
qed

lemma c_truncate_of_int: "c_truncate (of_int n) = n"
  by (simp add: c_truncate_def)

lemma float_compensation_power_of_two:
  assumes c: "0 < sint cnt" "sint cnt < sint q" and t: "0 \<le> sint t"
    and m: "sint t * sint q < 4194304"
    and p: "sint q = (sint q - sint cnt) * 2 ^ j"
  shows "sint (float_compensation q cnt t) = exact_compensation (sint q) (sint cnt) (sint t)"
proof (cases "sint t = 0")
  case True
  moreover have "t = word_of_int (sint t)" by simp
  ultimately have "t = 0" by simp
  then have "float_compensation q cnt t = 0"
    by (simp add: float_compensation_floor [OF c] float_round_def c_truncate_def)
  moreover have "exact_compensation (sint q) (sint cnt) (sint t) = 0"
    using c True by (simp add: exact_compensation_div)
  ultimately show ?thesis by simp
next
  case False
  define T Q U where "T = sint t" and "Q = sint q" and "U = sint q - sint cnt"
  have tp: "0 < T" using False t by (simp add: T_def)
  have u: "0 < U" using c by (simp add: U_def)
  have m': "T * Q < 4194304" using m by (simp add: T_def Q_def)
  have p': "Q = U * 2 ^ j" using p by (simp add: Q_def U_def)
  have "float_compensation q cnt t
      = word_of_int (c_truncate (float_round (float_round (of_int T)
          / float_round (float_round (of_int U) / float_round (of_int Q))))) - t"
    unfolding T_def Q_def U_def by (rule float_compensation_floor [OF c])
  also have "\<dots> = word_of_int (c_truncate (of_int (T * 2 ^ j))) - t"
    by (simp only: float_quotient_power_of_two [OF u tp m' p'])
  also have "\<dots> = word_of_int (T * 2 ^ j) - t"
    by (simp only: c_truncate_of_int)
  finally have fc: "float_compensation q cnt t = word_of_int (T * 2 ^ j) - t" .
  have tq: "T * Q = (T * 2 ^ j) * U" using p' by (simp add: mult_ac)
  have "T * 2 ^ j * 1 \<le> T * 2 ^ j * U" using tp u by (intro mult_left_mono) simp_all
  then have "T * 2 ^ j \<le> T * Q" by (simp add: tq)
  then have "T * 2 ^ j < 4194304 + T" using m' tp by linarith
  then have lt: "T * 2 ^ j < 4194304 + sint t" by (simp add: T_def)
  have "T * 1 \<le> T * 2 ^ j" using tp by (intro mult_left_mono) simp_all
  then have "sint t \<le> T * 2 ^ j" by (simp add: T_def)
  then have "sint (word_of_int (T * 2 ^ j) - t) = T * 2 ^ j - sint t"
    using lt t by (rule sint_result)
  moreover have "exact_compensation (sint q) (sint cnt) (sint t) = T * 2 ^ j - T"
    using c t u by (simp add: exact_compensation_div tq [unfolded T_def Q_def U_def] T_def U_def)
  ultimately show ?thesis by (simp add: fc T_def)
qed

lemma round_half_even_near:
  assumes "of_int n - 1 / 2 < q" "q < of_int n + 1 / 2"
  shows "round_half_even q = n"
proof (cases "q < of_int n")
  case True
  then have "\<lfloor>q\<rfloor> = n - 1" using assms(1) by (intro floor_unique) simp_all
  then show ?thesis using assms(1) by (simp add: round_half_even_def Let_def)
next
  case False
  then have "\<lfloor>q\<rfloor> = n" using assms(2) by (intro floor_unique) simp_all
  then show ?thesis using assms(2) by (simp add: round_half_even_def Let_def)
qed

lemma float_round_72_100: "float_round (72 / 100) = 3019899 / 4194304"
proof -
  have "float_round (72 / 100)
          = of_int (round_half_even (72 / 100 / 2 powi (- 1 - 23))) * 2 powi (- 1 - 23)"
    by (rule float_round_eq) (simp_all add: power_int_minus_divide)
  also have "round_half_even (72 / 100 / 2 powi (- 1 - 23)) = 12079596"
    by (rule round_half_even_near) (simp_all add: power_int_minus_divide)
  also have "of_int 12079596 * 2 powi (- 1 - 23) = (3019899 / 4194304 :: rat)"
    by (simp add: power_int_minus_divide)
  finally show ?thesis .
qed

lemma float_round_18_over: "float_round (18 / (3019899 / 4194304)) = 13107199 / 524288"
proof -
  have "float_round (18 / (3019899 / 4194304))
          = of_int (round_half_even (18 / (3019899 / 4194304) / 2 powi (4 - 23))) * 2 powi (4 - 23)"
    by (rule float_round_eq) (simp_all add: power_int_minus_divide)
  also have "round_half_even (18 / (3019899 / 4194304) / 2 powi (4 - 23)) = 13107199"
    by (rule round_half_even_near) (simp_all add: power_int_minus_divide)
  also have "of_int 13107199 * 2 powi (4 - 23) = (13107199 / 524288 :: rat)"
    by (simp add: power_int_minus_divide)
  finally show ?thesis .
qed

lemma float_compensation_100_28_18: "float_compensation 100 28 18 = 6"
proof -
  have c: "0 < sint (28 :: cint)" "sint (28 :: cint) < sint (100 :: cint)" by simp_all
  have i: "float_round 18 = 18" "float_round 72 = 72" "float_round 100 = 100"
    using float_round_of_int [of 18] float_round_of_int [of 72] float_round_of_int [of 100]
    by simp_all
  have "float_compensation 100 28 18
      = word_of_int (c_truncate (float_round (float_round (of_int 18)
          / float_round (float_round (of_int 72) / float_round (of_int 100))))) - 18"
    using float_compensation_floor [OF c, of 18] by simp
  also have "\<dots> = word_of_int (c_truncate (13107199 / 524288)) - 18"
    by (simp only: of_int_numeral i float_round_72_100 float_round_18_over)
  also have "\<dots> = 6"
  proof -
    have "\<lfloor>13107199 / 524288 :: rat\<rfloor> = 24" by (rule floor_unique) simp_all
    then show ?thesis by (simp add: c_truncate_def)
  qed
  finally show ?thesis .
qed

lemma exact_compensation_100_28_18: "exact_compensation 100 28 18 = 7"
  by (simp add: exact_compensation_div)


section \<open>The lottery\<close>

lemma shift_mod: "((x::nat) mod 4294967296) div 65536 mod 32768 = x div 65536 mod 32768"
proof -
  have "x div 2 ^ 16 mod 2 ^ 16 = x mod 2 ^ (16 + 16) div 2 ^ 16"
    by (rule div_exp_mod_exp_eq)
  then have "(x mod 4294967296) div 65536 = (x div 65536) mod 65536"
    by simp
  moreover have "(y::nat) mod 65536 mod 32768 = y mod 32768" for y
    by (simp add: mod_mod_cancel)
  ultimately show ?thesis by simp
qed

lemma unat_rand: "unat (rand k) = (unat (ticks k) * 1103515245 + 12345) div 65536 mod 32768"
proof -
  have "unat (rand k) = (unat (ticks k * 1103515245 + 12345) div 65536) mod 32768"
    by (simp add: rand_def CURRENT_TIME_def Let_def unat_div unat_mod)
  also have "unat (ticks k * 1103515245 + 12345)
             = (unat (ticks k) * 1103515245 + 12345) mod 4294967296"
    by (simp add: unat_word_ariths mod_simps)
  finally show ?thesis by (simp only: shift_mod)
qed

lemma unat_rand_less: "unat (rand k) < 32768"
  by (simp add: unat_rand)

lemma uint_rand_less: "uint (rand k) < 32768"
  using unat_rand_less [of k] by (simp add: unat_eq_nat_uint del: nat_uint_eq)

lemma sint_rand: "sint (rand k) = uint (rand k)"
  using uint_rand_less [of k] by (simp add: sint_uint_cint)

lemma sint_next_process:
  assumes "0 \<le> sint t" "sint t \<le> 65536"
  shows "sint (next_process k t) = uint (rand k) * sint t div 32768 + 1"
proof -
  let ?r = "uint (rand k)"
  have r: "0 \<le> ?r" "?r \<le> 32767" using uint_rand_less [of k] by simp_all
  have "?r * sint t \<le> 32767 * 65536"
    using r assms by (intro mult_mono) simp_all
  then have ub: "?r * sint t < 2147483648" by simp
  have lb: "0 \<le> ?r * sint t" using r assms by simp
  have prod: "sint (rand k * t) = ?r * sint t"
    using ub lb by (simp add: sint_times_cint sint_rand)
  have q: "sint (c_sdiv (rand k * t) 32768) = ?r * sint t div 32768"
  proof -
    have "sint (rand k * t) sdiv sint (32768 :: cint) = ?r * sint t div 32768"
      using lb by (simp add: prod signed_divide_int_def sgn_if)
    moreover have "0 \<le> ?r * sint t div 32768" using lb by simp
    moreover have "?r * sint t div 32768 < 2147483648" using ub by simp
    ultimately show ?thesis by (simp add: c_sdiv_def sint_of_int_cint)
  qed
  have "?r * sint t div 32768 < 65536" using ub by simp
  moreover have "0 \<le> ?r * sint t div 32768" using lb by simp
  ultimately show ?thesis
    unfolding next_process_def by (simp add: sint_plus_cint q)
qed

lemma same_lottery_refl: "same_lottery tab tab"
  by (simp add: same_lottery_def)

lemma same_lottery_trans: "same_lottery a b \<Longrightarrow> same_lottery b c \<Longrightarrow> same_lottery a c"
  by (simp add: same_lottery_def)

lemma ready_tickets_cong:
  "same_lottery tab tab' \<Longrightarrow> ready_tickets tab' ps = ready_tickets tab ps"
  by (induction ps) (simp_all add: ready_tickets_def same_lottery_def)

lemma find_winner_cong:
  "same_lottery tab tab' \<Longrightarrow> find_winner tab' w s ps nxt = find_winner tab w s ps nxt"
  by (induction ps arbitrary: s) (simp_all add: same_lottery_def Let_def)

lemma same_lottery_alarm:
  "same_lottery (proctab k)
     (proctab (sndsig p sig (k\<lparr>proctab := (proctab k)(p := (proctab k p)\<lparr>alarm := 0\<rparr>)\<rparr>)))"
  by (simp add: same_lottery_def sndsig_def)

lemma count_tickets_same:
  "same_lottery (proctab k) (proctab (snd (count_tickets c ps t k)))
   \<and> ticks (snd (count_tickets c ps t k)) = ticks k
   \<and> curr_proc (snd (count_tickets c ps t k)) = curr_proc k"
proof (induction ps arbitrary: t k)
  case Nil
  show ?case by (simp add: same_lottery_refl)
next
  case (Cons p ps)
  let ?k' = "sndsig p SIGALRM (k\<lparr>proctab := (proctab k)(p := (proctab k p)\<lparr>alarm := 0\<rparr>)\<rparr>)"
  have a: "same_lottery (proctab k) (proctab ?k')" by (rule same_lottery_alarm)
  have b: "ticks ?k' = ticks k" "curr_proc ?k' = curr_proc k" by (simp_all add: sndsig_def)
  show ?case
    using Cons.IH [where k = k] Cons.IH [where k = "?k'"] a b
    by (auto simp: Let_def intro: same_lottery_trans)
qed

text \<open>The first loop of \<open>yield\<close> computes the sum of the spec.\<close>

lemma count_tickets_total:
  "fst (count_tickets c ps t k) = t + ready_tickets (proctab k) ps"
proof (induction ps arbitrary: t k)
  case Nil
  show ?case by (simp add: ready_tickets_def)
next
  case (Cons p ps)
  let ?k' = "sndsig p SIGALRM (k\<lparr>proctab := (proctab k)(p := (proctab k p)\<lparr>alarm := 0\<rparr>)\<rparr>)"
  have a: "ready_tickets (proctab ?k') ps = ready_tickets (proctab k) ps"
    by (rule ready_tickets_cong) (rule same_lottery_alarm)
  have r: "ready_tickets (proctab k) (p # ps) =
        (if state (proctab k p) = PROC_READY
         then tickets (proctab k p) + compensation (proctab k p) else 0)
        + ready_tickets (proctab k) ps"
    by (simp add: ready_tickets_def)
  show ?case
    unfolding r using a by (simp add: Cons.IH Let_def)
qed

text \<open>
  The process that runs after \<open>yield\<close> is the one picked by the lottery among the processes
  as they are once the current process has been rescheduled.
\<close>

lemma yield_curr_proc:
  "curr_proc (yield c f k) =
     (let k1 = (if state (proctab k (curr_proc k)) = PROC_RUNNING
                then sched_at (curr_proc k) (add_compensation c f k) else k)
      in yield_next c (ready_tickets (proctab k1) (procs c)) k1)"
proof -
  define k1 where "k1 = (if state (proctab k (curr_proc k)) = PROC_RUNNING
                then sched_at (curr_proc k) (add_compensation c f k) else k)"
  define k2 where "k2 = k1\<lparr>last_proc := curr_proc k1\<rparr>"
  define r where "r = count_tickets c (procs c) 0 k2"
  have y: "yield c f k = run_next c (yield_next c (fst r) (snd r)) (snd r)"
    by (simp add: yield_def Let_def k1_def k2_def r_def case_prod_unfold)
  have t: "fst r = ready_tickets (proctab k1) (procs c)"
    by (simp add: r_def count_tickets_total k2_def)
  have s: "same_lottery (proctab k1) (proctab (snd r))" "ticks (snd r) = ticks k1"
    using count_tickets_same [of k2 c "procs c" 0] by (simp_all add: r_def k2_def)
  have "yield_next c (fst r) (snd r) = yield_next c (fst r) k1"
    using s by (simp add: yield_next_def find_winner_cong next_process_def rand_def
        CURRENT_TIME_def)
  then show ?thesis
    by (simp add: y t run_next_def switch_to_def Let_def k1_def)
qed

text \<open>
  The guard of \<open>add_compensation\<close> (line 77): with a counter of 0 or of \<open>PROC_QUANTUM\<close>
  nothing is stored; otherwise the result of the floating-point computation is.
\<close>

lemma add_compensation_none:
  assumes "counter (proctab k (curr_proc k)) = 0
         \<or> counter (proctab k (curr_proc k)) = PROC_QUANTUM c"
  shows "add_compensation c fcompute k = k"
  using assms by (auto simp: add_compensation_def Let_def word_sless_alt)

lemma add_compensation_some:
  assumes "0 < sint (counter (proctab k (curr_proc k)))"
    and "counter (proctab k (curr_proc k)) \<noteq> PROC_QUANTUM c"
  shows "compensation (proctab (add_compensation c fcompute k) (curr_proc k))
           = fcompute (PROC_QUANTUM c) (counter (proctab k (curr_proc k)))
               (tickets (proctab k (curr_proc k)))"
  using assms by (simp add: add_compensation_def Let_def word_sless_alt)


section \<open>Waking up and unlocking\<close>

lemma fold_sched_at_mem [simp]: "mem (fold sched_at ps k) = mem k"
  by (induction ps arbitrary: k) (simp_all add: sched_at_def)

lemma fold_sched_at_fields [simp]:
  "any_free_chain (fold sched_at ps k) = any_free_chain k"
  "interrupts (fold sched_at ps k) = interrupts k"
  "devlog (fold sched_at ps k) = devlog k"
  by (induction ps arbitrary: k) (simp_all add: sched_at_def)

lemma fold_sched_at_keeps_ready:
  "state (proctab k p) = PROC_READY \<Longrightarrow> state (proctab (fold sched_at ps k) p) = PROC_READY"
  by (induction ps arbitrary: k) (simp_all add: sched_at_def sched_def)

lemma fold_sched_at_ready:
  "p \<in> set ps \<Longrightarrow> state (proctab (fold sched_at ps k) p) = PROC_READY"
proof (induction ps arbitrary: k)
  case Nil
  then show ?case by simp
next
  case (Cons q ps)
  show ?case
  proof (cases "p = q")
    case True
    have "state (proctab (sched_at q k) q) = PROC_READY"
      by (simp add: sched_at_def sched_def)
    then show ?thesis using True by (simp add: fold_sched_at_keeps_ready)
  next
    case False
    then show ?thesis using Cons by simp
  qed
qed

lemma mem_wakeup_any [simp]: "mem (wakeup Any_free_chain k) = mem k"
  by (simp add: wakeup_def)

lemma mem_wakeup_buffer:
  "mem (wakeup (Buffer_chain b) k) = (mem k)(b := (mem k b)\<lparr>chain := []\<rparr>)"
  by (simp add: wakeup_def Let_def)

lemma wakeup_ready:
  "p \<in> set (case q of Any_free_chain \<Rightarrow> any_free_chain k | Buffer_chain b \<Rightarrow> chain (mem k b))
   \<Longrightarrow> state (proctab (wakeup q k) p) = PROC_READY"
  by (cases q) (simp_all add: wakeup_def Let_def fold_sched_at_ready)

lemma wakeup_keeps_ready:
  "state (proctab k p) = PROC_READY \<Longrightarrow> state (proctab (wakeup q k) p) = PROC_READY"
  by (cases q) (simp_all add: wakeup_def Let_def fold_sched_at_keeps_ready)

lemma mem_blkunlock:
  "mem (blkunlock buf k) =
     (mem k)(buf := (mem k buf)\<lparr>flags := flags (mem k buf) AND NOT BUFFER_LOCKED, chain := []\<rparr>)"
  by (simp add: blkunlock_def mem_wakeup_buffer upd_def enable_interrupts_def disable_interrupts_def)

lemma blkunlock_ready:
  "p \<in> set (chain (mem k buf)) \<Longrightarrow> state (proctab (blkunlock buf k) p) = PROC_READY"
  by (simp add: blkunlock_def enable_interrupts_def wakeup_ready upd_def disable_interrupts_def)

lemma blkunlock_keeps_ready:
  "state (proctab k p) = PROC_READY \<Longrightarrow> state (proctab (blkunlock buf k) p) = PROC_READY"
  by (simp add: blkunlock_def enable_interrupts_def wakeup_keeps_ready upd_def disable_interrupts_def)

lemma and_not_locked_other:
  "(w AND NOT BUFFER_LOCKED) AND BUFFER_VALID = w AND BUFFER_VALID"
  "(w AND NOT BUFFER_LOCKED) AND BUFFER_DIRTY = w AND BUFFER_DIRTY"
  "(w AND NOT BUFFER_LOCKED) AND BUFFER_BUSY = w AND BUFFER_BUSY"
  "(w AND NOT BUFFER_LOCKED) AND BUFFER_LOCKED = 0"
  unfolding BUFFER_VALID_def BUFFER_DIRTY_def BUFFER_BUSY_def BUFFER_LOCKED_def
  by (simp_all add: and.assoc)


section \<open>The free list\<close>

lemma free_seg_links:
  "(\<forall>q. free_next (m' q) = free_next (m q) \<and> free_prev (m' q) = free_prev (m q))
   \<Longrightarrow> free_seg m' prev p xs = free_seg m prev p xs"
  by (induction xs arbitrary: prev p) simp_all

lemma free_list_links:
  "(\<forall>q. free_next (m' q) = free_next (m q) \<and> free_prev (m' q) = free_prev (m q))
   \<Longrightarrow> free_list m' xs = free_list m xs"
  using free_seg_links [of m' m] by (simp add: free_list_def)

lemma free_seg_frame:
  "free_seg m prev p xs \<Longrightarrow>
   (\<forall>x\<in>set xs. free_next (m' (Buffers x)) = free_next (m (Buffers x))
               \<and> free_prev (m' (Buffers x)) = free_prev (m (Buffers x))) \<Longrightarrow>
   free_prev (m' Free_buffers) = free_prev (m Free_buffers) \<Longrightarrow>
   free_seg m' prev p xs"
  by (induction xs arbitrary: prev p) auto

lemma free_seg_tail:
  "free_seg m prev p xs \<Longrightarrow>
   free_prev (m Free_buffers) = (if xs = [] then prev else Buffers (last xs))"
  by (induction xs arbitrary: prev p) auto

lemma free_seg_snoc:
  assumes "free_seg m prev p xs" "distinct xs"
    "\<forall>x\<in>set xs. free_prev (m' (Buffers x)) = free_prev (m (Buffers x))
        \<and> free_next (m' (Buffers x)) =
            (if x = last xs then Buffers i else free_next (m (Buffers x)))"
    "free_prev (m' (Buffers i)) = (if xs = [] then prev else Buffers (last xs))"
    "free_next (m' (Buffers i)) = Free_buffers"
    "free_prev (m' Free_buffers) = Buffers i"
  shows "free_seg m' prev (if xs = [] then Buffers i else p) (xs @ [i])"
  using assms
proof (induction xs arbitrary: prev p)
  case Nil
  then show ?case by simp
next
  case (Cons x xs)
  have p: "p = Buffers x" "free_prev (m p) = prev" "free_seg m p (free_next (m p)) xs"
    using Cons.prems(1) by auto
  have nl: "xs \<noteq> [] \<Longrightarrow> x \<noteq> last xs" using Cons.prems(2) by auto
  have "free_seg m' p (if xs = [] then Buffers i else free_next (m p)) (xs @ [i])"
  proof (rule Cons.IH [OF p(3)])
    show "distinct xs" using Cons.prems(2) by simp
    show "\<forall>y\<in>set xs. free_prev (m' (Buffers y)) = free_prev (m (Buffers y))
        \<and> free_next (m' (Buffers y)) =
            (if y = last xs then Buffers i else free_next (m (Buffers y)))"
      using Cons.prems(3) by auto
    show "free_prev (m' (Buffers i)) = (if xs = [] then p else Buffers (last xs))"
      using Cons.prems(4) p(1) by simp
    show "free_next (m' (Buffers i)) = Free_buffers" by (rule Cons.prems(5))
    show "free_prev (m' Free_buffers) = Buffers i" by (rule Cons.prems(6))
  qed
  moreover have "free_next (m' p) = (if xs = [] then Buffers i else free_next (m p))"
    using Cons.prems(3) p(1) nl by auto
  moreover have "free_prev (m' p) = prev"
    using Cons.prems(3) p by simp
  ultimately show ?case using p(1) by simp
qed

lemma mem_upd: "mem (upd p f k) = (mem k)(p := f (mem k p))"
  by (simp add: upd_def)

lemma mem_free_insert_begin:
  "mem (free_insert_begin buf k) =
     (let m1 = (mem k)(free_next (mem k Free_buffers) :=
                   (mem k (free_next (mem k Free_buffers)))\<lparr>free_prev := buf\<rparr>);
          m2 = m1(buf := (m1 buf)\<lparr>free_prev := Free_buffers\<rparr>);
          m3 = m2(buf := (m2 buf)\<lparr>free_next := free_next (m2 Free_buffers)\<rparr>)
      in m3(Free_buffers := (m3 Free_buffers)\<lparr>free_next := buf\<rparr>))"
  by (simp add: free_insert_begin_def Let_def mem_upd)

lemma free_list_insert_begin:
  assumes "free_list (mem k) xs" "i \<notin> set xs"
  shows "free_list (mem (free_insert_begin (Buffers i) k)) (i # xs)"
proof (cases xs)
  case Nil
  then have "free_next (mem k Free_buffers) = Free_buffers" "free_prev (mem k Free_buffers) = Free_buffers"
    using assms by (simp_all add: free_list_def)
  then show ?thesis
    using Nil by (simp add: free_list_def mem_free_insert_begin Let_def)
next
  case (Cons x ys)
  let ?m = "mem k" and ?m' = "mem (free_insert_begin (Buffers i) k)"
  have h: "free_next (?m Free_buffers) = Buffers x" "free_prev (?m (Buffers x)) = Free_buffers"
    "free_seg ?m (Buffers x) (free_next (?m (Buffers x))) ys" "distinct xs"
    using assms Cons by (auto simp: free_list_def)
  have ne: "x \<noteq> i" "i \<notin> set ys" "x \<notin> set ys" using assms(2) h(4) Cons by auto
  have m': "?m' = (?m)(Buffers x := (?m (Buffers x))\<lparr>free_prev := Buffers i\<rparr>,
                 Buffers i := (?m (Buffers i))\<lparr>free_prev := Free_buffers, free_next := Buffers x\<rparr>,
                 Free_buffers := (?m Free_buffers)\<lparr>free_next := Buffers i\<rparr>)"
    using ne(1) by (simp add: mem_free_insert_begin Let_def h(1))
  have seg: "free_seg ?m' (Buffers x) (free_next (?m (Buffers x))) ys"
  proof (rule free_seg_frame [OF h(3)])
    show "\<forall>y\<in>set ys. free_next (?m' (Buffers y)) = free_next (?m (Buffers y))
               \<and> free_prev (?m' (Buffers y)) = free_prev (?m (Buffers y))"
      using ne by (auto simp: m')
    show "free_prev (?m' Free_buffers) = free_prev (?m Free_buffers)"
      by (simp add: m')
  qed
  have f: "free_next (?m' Free_buffers) = Buffers i" "free_prev (?m' (Buffers i)) = Free_buffers"
    "free_next (?m' (Buffers i)) = Buffers x" "free_prev (?m' (Buffers x)) = Buffers i"
    "free_next (?m' (Buffers x)) = free_next (?m (Buffers x))"
    using ne(1) by (simp_all add: m')
  have d: "distinct (i # xs)" using assms(2) h(4) by simp
  show ?thesis
    unfolding free_list_def Cons
    by (simp only: f free_seg.simps seg d [unfolded Cons] simp_thms)
qed

lemma mem_free_insert_end:
  "mem (free_insert_end buf k) =
     (let m1 = (mem k)(free_prev (mem k Free_buffers) :=
                   (mem k (free_prev (mem k Free_buffers)))\<lparr>free_next := buf\<rparr>);
          m2 = m1(buf := (m1 buf)\<lparr>free_prev := free_prev (m1 Free_buffers)\<rparr>);
          m3 = m2(Free_buffers := (m2 Free_buffers)\<lparr>free_prev := buf\<rparr>)
      in m3(buf := (m3 buf)\<lparr>free_next := Free_buffers\<rparr>))"
  by (simp add: free_insert_end_def Let_def mem_upd)

lemma free_list_insert_end:
  assumes "free_list (mem k) xs" "i \<notin> set xs"
  shows "free_list (mem (free_insert_end (Buffers i) k)) (xs @ [i])"
proof -
  let ?m = "mem k" and ?m' = "mem (free_insert_end (Buffers i) k)"
  have s: "free_seg ?m Free_buffers (free_next (?m Free_buffers)) xs" "distinct xs"
    using assms by (simp_all add: free_list_def)
  have t: "free_prev (?m Free_buffers) = (if xs = [] then Free_buffers else Buffers (last xs))"
    using free_seg_tail [OF s(1)] .
  have d: "distinct (xs @ [i])" using s(2) assms(2) by simp
  show ?thesis
  proof (cases "xs = []")
    case True
    show ?thesis
      using t True by (simp add: free_list_def mem_free_insert_end Let_def)
  next
    case False
    let ?l = "last xs"
    have li: "?l \<noteq> i" "?l \<in> set xs" using False assms(2) by (auto dest: last_in_set)
    have tl: "free_prev (?m Free_buffers) = Buffers ?l" using t False by simp
    have m': "?m' = (?m)(Buffers ?l := (?m (Buffers ?l))\<lparr>free_next := Buffers i\<rparr>,
                   Free_buffers := (?m Free_buffers)\<lparr>free_prev := Buffers i\<rparr>,
                   Buffers i := (?m (Buffers i))\<lparr>free_prev := Buffers ?l, free_next := Free_buffers\<rparr>)"
      using li(1) by (simp add: mem_free_insert_end Let_def tl fun_upd_twist)
    have "free_seg ?m' Free_buffers (if xs = [] then Buffers i else free_next (?m Free_buffers)) (xs @ [i])"
    proof (rule free_seg_snoc [OF s])
      show "\<forall>x\<in>set xs. free_prev (?m' (Buffers x)) = free_prev (?m (Buffers x)) \<and>
           free_next (?m' (Buffers x)) = (if x = last xs then Buffers i else free_next (?m (Buffers x)))"
        using assms(2) by (auto simp: m')
      show "free_prev (?m' (Buffers i)) = (if xs = [] then Free_buffers else Buffers (last xs))"
        using False by (simp add: m')
      show "free_next (?m' (Buffers i)) = Free_buffers" by (simp add: m')
      show "free_prev (?m' Free_buffers) = Buffers i" by (simp add: m')
    qed
    moreover have "free_next (?m' Free_buffers) = free_next (?m Free_buffers)"
      by (simp add: m')
    ultimately have "free_seg ?m' Free_buffers (free_next (?m' Free_buffers)) (xs @ [i])"
      using False by simp
    then show ?thesis using d by (simp only: free_list_def simp_thms)
  qed
qed

section \<open>Releasing a buffer\<close>

lemma sint_dec:
  assumes "1 \<le> sint (w :: cint)"
  shows "sint (w - 1) = sint w - 1"
proof -
  have "sint w < 2 ^ (LENGTH(32) - 1)" by (rule sint_lt)
  then have "sint w - sint (1 :: cint) < 2147483648" by simp
  moreover have "- 2147483648 \<le> sint w - sint (1 :: cint)" using assms by simp
  ultimately have "sint (w - 1) = sint w - sint (1 :: cint)" by (rule sint_minus_cint [rotated])
  then show ?thesis by simp
qed

lemma sint_inc:
  assumes "0 \<le> sint (w :: cint)" "sint w < 2147483647"
  shows "sint (w + 1) = sint w + 1"
proof -
  have "sint (w + 1) = sint w + sint (1 :: cint)"
    using assms by (intro sint_plus_cint) simp_all
  then show ?thesis by simp
qed

lemma free_insert_begin_other [simp]:
  "any_free_chain (free_insert_begin buf k) = any_free_chain k"
  "proctab (free_insert_begin buf k) = proctab k"
  "interrupts (free_insert_begin buf k) = interrupts k"
  "devlog (free_insert_begin buf k) = devlog k"
  by (simp_all add: free_insert_begin_def upd_def Let_def)

lemma free_insert_end_other [simp]:
  "any_free_chain (free_insert_end buf k) = any_free_chain k"
  "proctab (free_insert_end buf k) = proctab k"
  "interrupts (free_insert_end buf k) = interrupts k"
  "devlog (free_insert_end buf k) = devlog k"
  by (simp_all add: free_insert_end_def upd_def Let_def)

lemma free_insert_begin_data [simp]:
  "count (mem (free_insert_begin buf k) p) = count (mem k p)"
  "flags (mem (free_insert_begin buf k) p) = flags (mem k p)"
  "chain (mem (free_insert_begin buf k) p) = chain (mem k p)"
  "dev (mem (free_insert_begin buf k) p) = dev (mem k p)"
  "num (mem (free_insert_begin buf k) p) = num (mem k p)"
  by (simp_all add: mem_free_insert_begin Let_def)

lemma free_insert_end_data [simp]:
  "count (mem (free_insert_end buf k) p) = count (mem k p)"
  "flags (mem (free_insert_end buf k) p) = flags (mem k p)"
  "chain (mem (free_insert_end buf k) p) = chain (mem k p)"
  "dev (mem (free_insert_end buf k) p) = dev (mem k p)"
  "num (mem (free_insert_end buf k) p) = num (mem k p)"
  by (simp_all add: mem_free_insert_end Let_def)

lemma upd_same: "f (mem k p) = g (mem k p) \<Longrightarrow> upd p f k = upd p g k"
  by (simp add: upd_def)

lemma mem_interrupts [simp]:
  "mem (disable_interrupts k) = mem k" "mem (enable_interrupts k) = mem k"
  by (simp_all add: disable_interrupts_def enable_interrupts_def)

lemma is_set_frame:
  "flags (mem k' buf) = flags (mem k buf) \<Longrightarrow> is_set f buf k' = is_set f buf k"
  by (simp add: is_set_def)

lemma brelse_last:
  assumes "count (mem k buf) = 1"
  shows "brelse buf k =
     Return () (enable_interrupts (blkunlock buf
        ((if is_set BUFFER_VALID buf k \<and> is_set BUFFER_DIRTY buf k
          then free_insert_end buf else free_insert_begin buf)
         (wakeup Any_free_chain (upd buf (\<lambda>b. b\<lparr>count := 0\<rparr>) (disable_interrupts k))))))"
proof -
  let ?k1 = "disable_interrupts k"
  let ?k2 = "upd buf (\<lambda>b. b\<lparr>count := 0\<rparr>) ?k1"
  let ?k' = "wakeup Any_free_chain ?k2"
  have e: "upd buf (\<lambda>b. b\<lparr>count := count b - 1\<rparr>) ?k1 = ?k2"
    using assms by (intro upd_same) simp
  have c: "count (mem ?k2 buf) = 0" by (simp add: mem_upd)
  have f: "is_set g buf ?k' = is_set g buf k" for g
    by (rule is_set_frame) (simp add: mem_upd)
  have z: "\<not> count (mem (free_insert_end buf ?k') buf) <s 0"
     "\<not> count (mem (free_insert_begin buf ?k') buf) <s 0"
    by (simp_all add: mem_upd)
  show ?thesis
  proof (cases "is_set BUFFER_VALID buf k \<and> is_set BUFFER_DIRTY buf k")
    case True
    then show ?thesis
      unfolding brelse_def Let_def e by (simp only: c f z if_True if_False simp_thms)
  next
    case False
    then show ?thesis
      unfolding brelse_def Let_def e by (simp only: c f z if_True if_False simp_thms)
  qed
qed

lemma brelse_more:
  assumes "1 \<le> sint (count (mem k buf))" "count (mem k buf) \<noteq> 1"
  shows "brelse buf k =
     Return () (enable_interrupts (blkunlock buf
         (upd buf (\<lambda>b. b\<lparr>count := count b - 1\<rparr>) (disable_interrupts k))))"
proof -
  have "\<not> count (mem k buf) - 1 <s 0"
    using assms(1) by (simp add: word_sless_alt sint_dec)
  moreover have "count (mem k buf) - 1 \<noteq> 0" using assms(2) by simp
  ultimately show ?thesis
    by (simp add: brelse_def Let_def mem_upd disable_interrupts_def)
qed


lemma brelse_twice:
  assumes "count (mem k buf) = 0"
  shows "brelse buf k = Panic ''fs: freeing buffer twice''
           (upd buf (\<lambda>b. b\<lparr>count := - 1\<rparr>) (disable_interrupts k))"
proof -
  let ?k1 = "disable_interrupts k"
  let ?k2 = "upd buf (\<lambda>b. b\<lparr>count := - 1\<rparr>) ?k1"
  have e: "upd buf (\<lambda>b. b\<lparr>count := count b - 1\<rparr>) ?k1 = ?k2"
    using assms by (intro upd_same) simp
  have c: "count (mem ?k2 buf) = - 1" by (simp add: mem_upd)
  have n: "(- 1 :: cint) \<noteq> 0" "(- 1 :: cint) <s 0" by (simp_all add: word_sless_alt)
  show ?thesis
    unfolding brelse_def Let_def e by (simp only: c n if_True if_False simp_thms)
qed

section \<open>Initialisation\<close>

lemma binit_buffers_fold:
  "fst (fold (binit_buffer c) [0 ..< n] (BUFFERS_VIRT c, k)) = BUFFERS_VIRT c + of_nat n * BLOCK_SIZE c
   \<and> (\<forall>i. mem (snd (fold (binit_buffer c) [0 ..< n] (BUFFERS_VIRT c, k))) (Buffers i) =
          (if i < n then init_buffer c i (mem k (Buffers i)) else mem k (Buffers i)))
   \<and> mem (snd (fold (binit_buffer c) [0 ..< n] (BUFFERS_VIRT c, k))) Free_buffers = mem k Free_buffers
   \<and> (\<forall>j. mem (snd (fold (binit_buffer c) [0 ..< n] (BUFFERS_VIRT c, k))) (Hashtab j) = mem k (Hashtab j))
   \<and> any_free_chain (snd (fold (binit_buffer c) [0 ..< n] (BUFFERS_VIRT c, k))) = any_free_chain k
   \<and> proctab (snd (fold (binit_buffer c) [0 ..< n] (BUFFERS_VIRT c, k))) = proctab k
   \<and> interrupts (snd (fold (binit_buffer c) [0 ..< n] (BUFFERS_VIRT c, k))) = interrupts k
   \<and> devlog (snd (fold (binit_buffer c) [0 ..< n] (BUFFERS_VIRT c, k))) = devlog k"
proof (induction n)
  case 0
  show ?case by simp
next
  case (Suc n)
  define r where "r = fold (binit_buffer c) [0 ..< n] (BUFFERS_VIRT c, k)"
  have f: "fold (binit_buffer c) [0 ..< Suc n] (BUFFERS_VIRT c, k) = binit_buffer c n (fst r, snd r)"
    by (simp add: r_def)
  show ?case
    unfolding f using Suc [folded r_def]
    by (simp add: binit_buffer_def upd_def init_buffer_def distrib_right)
qed

lemma fold_binit_bucket:
  "(\<forall>j. mem (fold binit_bucket [0 ..< n] k) (Hashtab j) =
          (if j < n then (mem k (Hashtab j))\<lparr>hash_prev := Hashtab j, hash_next := Hashtab j\<rparr>
           else mem k (Hashtab j)))
   \<and> (\<forall>i. mem (fold binit_bucket [0 ..< n] k) (Buffers i) = mem k (Buffers i))
   \<and> mem (fold binit_bucket [0 ..< n] k) Free_buffers = mem k Free_buffers
   \<and> any_free_chain (fold binit_bucket [0 ..< n] k) = any_free_chain k
   \<and> proctab (fold binit_bucket [0 ..< n] k) = proctab k
   \<and> interrupts (fold binit_bucket [0 ..< n] k) = interrupts k
   \<and> devlog (fold binit_bucket [0 ..< n] k) = devlog k"
proof (induction n)
  case 0
  show ?case by simp
next
  case (Suc n)
  show ?case
    using Suc by (simp add: binit_bucket_def upd_def)
qed

lemma mem_binit:
  "mem (binit c k) (Buffers i) =
     (if i < NR_BUFFERS c then init_buffer c i (mem k (Buffers i)) else mem k (Buffers i))"
  "mem (binit c k) Free_buffers =
     (mem k Free_buffers)\<lparr>free_next := Buffers 0, free_prev := Buffers (NR_BUFFERS c - 1)\<rparr>"
  "mem (binit c k) (Hashtab j) =
     (if j < BUFFERS_HASHTAB_SIZE c
      then (mem k (Hashtab j))\<lparr>hash_prev := Hashtab j, hash_next := Hashtab j\<rparr>
      else mem k (Hashtab j))"
  using binit_buffers_fold [of c "NR_BUFFERS c" k]
  by (simp_all add: binit_def Let_def fold_binit_bucket upd_def)

lemma binit_other [simp]:
  "any_free_chain (binit c k) = any_free_chain k"
  "proctab (binit c k) = proctab k"
  "interrupts (binit c k) = interrupts k"
  "devlog (binit c k) = devlog k"
  using binit_buffers_fold [of c "NR_BUFFERS c" k]
  by (simp_all add: binit_def Let_def fold_binit_bucket upd_def)

lemma free_seg_binit:
  assumes "j \<le> NR_BUFFERS c" "0 < NR_BUFFERS c"
  shows "free_seg (mem (binit c k))
           (if j = 0 then Free_buffers else Buffers (j - 1))
           (if j = NR_BUFFERS c then Free_buffers else Buffers j)
           [j ..< NR_BUFFERS c]"
  using assms
proof (induction "NR_BUFFERS c - j" arbitrary: j)
  case 0
  then show ?case by (simp add: mem_binit)
next
  case (Suc d)
  then have j: "j < NR_BUFFERS c" by simp
  have "free_seg (mem (binit c k)) (Buffers j)
          (if Suc j = NR_BUFFERS c then Free_buffers else Buffers (Suc j)) [Suc j ..< NR_BUFFERS c]"
    using Suc.hyps(1) [of "Suc j"] Suc.hyps(2) j Suc.prems by simp
  then show ?case
    using j by (auto simp: upt_rec [of j] mem_binit init_buffer_def)
qed

lemma init_buffer_flags:
  "flags (init_buffer c i b) AND BUFFER_VALID = 0"
  "flags (init_buffer c i b) AND BUFFER_BUSY = 0"
  "flags (init_buffer c i b) AND BUFFER_LOCKED = 0"
  "flags (init_buffer c i b) AND BUFFER_DIRTY = 0"
  by (simp_all add: init_buffer_def BUFFER_VALID_def BUFFER_BUSY_def BUFFER_LOCKED_def
      BUFFER_DIRTY_def)


section \<open>Getting a buffer\<close>

lemma mem_free_remove:
  "mem (free_remove buf k) =
     (let m1 = (mem k)(free_prev (mem k buf) :=
                  (mem k (free_prev (mem k buf)))\<lparr>free_next := free_next (mem k buf)\<rparr>)
      in m1(free_next (m1 buf) := (m1 (free_next (m1 buf)))\<lparr>free_prev := free_prev (m1 buf)\<rparr>))"
  by (simp add: free_remove_def Let_def mem_upd)

lemma mem_hash_remove:
  "mem (hash_remove buf k) =
     (let m1 = (mem k)(hash_prev (mem k buf) :=
                  (mem k (hash_prev (mem k buf)))\<lparr>hash_next := hash_next (mem k buf)\<rparr>)
      in m1(hash_next (m1 buf) := (m1 (hash_next (m1 buf)))\<lparr>hash_prev := hash_prev (m1 buf)\<rparr>))"
  by (simp add: hash_remove_def Let_def mem_upd)

lemma mem_hash_insert:
  "mem (hash_insert i buf k) =
     (let m1 = (mem k)(hash_next (mem k (Hashtab i)) :=
                  (mem k (hash_next (mem k (Hashtab i))))\<lparr>hash_prev := buf\<rparr>);
          m2 = m1(buf := (m1 buf)\<lparr>hash_prev := Hashtab i\<rparr>);
          m3 = m2(buf := (m2 buf)\<lparr>hash_next := hash_next (m2 (Hashtab i))\<rparr>)
      in m3(Hashtab i := (m3 (Hashtab i))\<lparr>hash_next := buf\<rparr>))"
  by (simp add: hash_insert_def Let_def mem_upd)

lemma free_remove_other [simp]:
  "any_free_chain (free_remove buf k) = any_free_chain k"
  "proctab (free_remove buf k) = proctab k"
  "interrupts (free_remove buf k) = interrupts k"
  "devlog (free_remove buf k) = devlog k"
  by (simp_all add: free_remove_def upd_def Let_def)

lemma hash_remove_other [simp]:
  "any_free_chain (hash_remove buf k) = any_free_chain k"
  "proctab (hash_remove buf k) = proctab k"
  "interrupts (hash_remove buf k) = interrupts k"
  "devlog (hash_remove buf k) = devlog k"
  by (simp_all add: hash_remove_def upd_def Let_def)

lemma hash_insert_other [simp]:
  "any_free_chain (hash_insert i buf k) = any_free_chain k"
  "proctab (hash_insert i buf k) = proctab k"
  "interrupts (hash_insert i buf k) = interrupts k"
  "devlog (hash_insert i buf k) = devlog k"
  by (simp_all add: hash_insert_def upd_def Let_def)

lemma free_remove_data [simp]:
  "count (mem (free_remove buf k) p) = count (mem k p)"
  "flags (mem (free_remove buf k) p) = flags (mem k p)"
  "chain (mem (free_remove buf k) p) = chain (mem k p)"
  "dev (mem (free_remove buf k) p) = dev (mem k p)"
  "num (mem (free_remove buf k) p) = num (mem k p)"
  "data (mem (free_remove buf k) p) = data (mem k p)"
  "hash_next (mem (free_remove buf k) p) = hash_next (mem k p)"
  "hash_prev (mem (free_remove buf k) p) = hash_prev (mem k p)"
  by (simp_all add: mem_free_remove Let_def)

lemma hash_remove_data [simp]:
  "count (mem (hash_remove buf k) p) = count (mem k p)"
  "flags (mem (hash_remove buf k) p) = flags (mem k p)"
  "chain (mem (hash_remove buf k) p) = chain (mem k p)"
  "dev (mem (hash_remove buf k) p) = dev (mem k p)"
  "num (mem (hash_remove buf k) p) = num (mem k p)"
  "data (mem (hash_remove buf k) p) = data (mem k p)"
  "free_next (mem (hash_remove buf k) p) = free_next (mem k p)"
  "free_prev (mem (hash_remove buf k) p) = free_prev (mem k p)"
  by (simp_all add: mem_hash_remove Let_def)

lemma hash_insert_data [simp]:
  "count (mem (hash_insert i buf k) p) = count (mem k p)"
  "flags (mem (hash_insert i buf k) p) = flags (mem k p)"
  "chain (mem (hash_insert i buf k) p) = chain (mem k p)"
  "dev (mem (hash_insert i buf k) p) = dev (mem k p)"
  "num (mem (hash_insert i buf k) p) = num (mem k p)"
  "data (mem (hash_insert i buf k) p) = data (mem k p)"
  "free_next (mem (hash_insert i buf k) p) = free_next (mem k p)"
  "free_prev (mem (hash_insert i buf k) p) = free_prev (mem k p)"
  by (simp_all add: mem_hash_insert Let_def)

lemma free_insert_links [simp]:
  "hash_next (mem (free_insert_begin buf k) p) = hash_next (mem k p)"
  "hash_prev (mem (free_insert_begin buf k) p) = hash_prev (mem k p)"
  "data (mem (free_insert_begin buf k) p) = data (mem k p)"
  "hash_next (mem (free_insert_end buf k) p) = hash_next (mem k p)"
  "hash_prev (mem (free_insert_end buf k) p) = hash_prev (mem k p)"
  "data (mem (free_insert_end buf k) p) = data (mem k p)"
  by (simp_all add: mem_free_insert_begin mem_free_insert_end Let_def)

lemma hash_search_result:
  assumes "hash_search m head d n p = Some r"
  shows "case r of Some b \<Rightarrow> dev (m b) = d \<and> num (m b) = n \<and> b \<noteq> head | None \<Rightarrow> True"
proof (rule hash_search.raw_induct
    [where P = "\<lambda>m head d n p r. case r of
                  Some b \<Rightarrow> dev (m b) = d \<and> num (m b) = n \<and> b \<noteq> head | None \<Rightarrow> True",
     OF _ assms])
  fix f :: "(bufptr \<Rightarrow> buffer) \<Rightarrow> bufptr \<Rightarrow> cint \<Rightarrow> cint \<Rightarrow> bufptr \<Rightarrow> bufptr option option"
  fix m head d n buf y
  assume "\<And>m head d n buf y. f m head d n buf = Some y \<Longrightarrow>
            (case y of Some b \<Rightarrow> dev (m b) = d \<and> num (m b) = n \<and> b \<noteq> head | None \<Rightarrow> True)"
    and "(if buf = head then Some None
          else if dev (m buf) \<noteq> d \<or> num (m buf) \<noteq> n
               then f m head d n (hash_next (m buf)) else Some (Some buf)) = Some y"
  then show "case y of Some b \<Rightarrow> dev (m b) = d \<and> num (m b) = n \<and> b \<noteq> head | None \<Rightarrow> True"
    by (auto split: if_splits)
qed

lemma hash_search_found:
  "hash_search m head d n p = Some (Some b) \<Longrightarrow> dev (m b) = d \<and> num (m b) = n \<and> b \<noteq> head"
  using hash_search_result [of m head d n p "Some b"] by simp

lemma hash_search_bucket:
  "hash_seg m head p bs \<Longrightarrow>
   hash_search m head d n p = Some (find (\<lambda>b. dev (m b) = d \<and> num (m b) = n) bs)"
proof (induction bs arbitrary: p)
  case Nil
  then show ?case by (simp add: hash_search.simps)
next
  case (Cons b bs)
  then show ?case by (subst hash_search.simps) auto
qed

lemma take_reference_other [simp]:
  "any_free_chain (take_reference buf k) = any_free_chain k"
  "proctab (take_reference buf k) = proctab k"
  "interrupts (take_reference buf k) = interrupts k"
  "devlog (take_reference buf k) = devlog k"
  by (simp_all add: take_reference_def upd_def)

lemma take_reference_data [simp]:
  "flags (mem (take_reference buf k) p) = flags (mem k p)"
  "chain (mem (take_reference buf k) p) = chain (mem k p)"
  "dev (mem (take_reference buf k) p) = dev (mem k p)"
  "num (mem (take_reference buf k) p) = num (mem k p)"
  "data (mem (take_reference buf k) p) = data (mem k p)"
  "hash_next (mem (take_reference buf k) p) = hash_next (mem k p)"
  "hash_prev (mem (take_reference buf k) p) = hash_prev (mem k p)"
  "free_next (mem (take_reference buf k) p) = free_next (mem k p)"
  "free_prev (mem (take_reference buf k) p) = free_prev (mem k p)"
  "count (mem (take_reference buf k) p) = (if p = buf then count (mem k p) + 1 else count (mem k p))"
  by (simp_all add: take_reference_def mem_upd)

lemma is_set_interrupts [simp]:
  "is_set f buf (disable_interrupts k) = is_set f buf k"
  "is_set f buf (enable_interrupts k) = is_set f buf k"
  by (simp_all add: is_set_def)

lemma is_set_lists [simp]:
  "is_set f buf (free_remove b k) = is_set f buf k"
  "is_set f buf (hash_remove b k) = is_set f buf k"
  "is_set f buf (hash_insert i b k) = is_set f buf k"
  "is_set f buf (take_reference b k) = is_set f buf k"
  "is_set f buf (free_insert_begin b k) = is_set f buf k"
  "is_set f buf (free_insert_end b k) = is_set f buf k"
  by (simp_all add: is_set_def)

lemma blklock_free:
  "\<not> is_set BUFFER_LOCKED buf k \<Longrightarrow>
   blklock buf k es =
     Return es (enable_interrupts
       (upd buf (\<lambda>b. b\<lparr>flags := flags b OR BUFFER_LOCKED\<rparr>) (disable_interrupts k)))"
  by (cases es) (simp_all add: blklock_def)

lemma lock_and_return_free:
  "\<not> is_set BUFFER_LOCKED buf k \<Longrightarrow>
   lock_and_return buf k es =
     Return (buf, es) (enable_interrupts (enable_interrupts
       (upd buf (\<lambda>b. b\<lparr>flags := flags b OR BUFFER_LOCKED\<rparr>) (disable_interrupts k))))"
  by (simp add: lock_and_return_def blklock_free)

lemma locked_after_lock [simp]:
  "is_set BUFFER_LOCKED buf (upd buf (\<lambda>b. b\<lparr>flags := flags b OR BUFFER_LOCKED\<rparr>) k)"
proof -
  have "(w OR BUFFER_LOCKED) AND BUFFER_LOCKED = BUFFER_LOCKED" for w :: cint
    by (simp add: bit.conj_disj_distrib2)
  then show ?thesis
    by (simp add: is_set_def mem_upd BUFFER_LOCKED_def)
qed

lemma getblk_pass_locked:
  assumes "hash_search (mem k) (Hashtab (HASH c d n)) d n
             (hash_next (mem k (Hashtab (HASH c d n)))) = Some (Some buf)"
    and "is_set BUFFER_LOCKED buf k"
  shows "getblk_pass c d n k es = Goto_repeat (Buffer_chain buf) (disable_interrupts k)"
  using assms by (simp add: getblk_pass_def Let_def)

lemma getblk_pass_hit:
  assumes "hash_search (mem k) (Hashtab (HASH c d n)) d n
             (hash_next (mem k (Hashtab (HASH c d n)))) = Some (Some buf)"
    and "\<not> is_set BUFFER_LOCKED buf k"
  shows "getblk_pass c d n k es =
     Finished (lock_and_return buf
       (if count (mem k buf) = 0
        then free_remove buf (take_reference buf (disable_interrupts k))
        else take_reference buf (disable_interrupts k)) es)"
  using assms by (simp add: getblk_pass_def Let_def)

lemma getblk_pass_no_free:
  assumes "hash_search (mem k) (Hashtab (HASH c d n)) d n
             (hash_next (mem k (Hashtab (HASH c d n)))) = Some None"
    and "free_next (mem k Free_buffers) = Free_buffers"
  shows "getblk_pass c d n k es = Goto_repeat Any_free_chain (disable_interrupts k)"
  using assms by (simp add: getblk_pass_def Let_def)

lemma getblk_pass_dirty:
  assumes "hash_search (mem k) (Hashtab (HASH c d n)) d n
             (hash_next (mem k (Hashtab (HASH c d n)))) = Some None"
    and "free_next (mem k Free_buffers) \<noteq> Free_buffers"
    and "is_set BUFFER_DIRTY (free_next (mem k Free_buffers)) k"
  shows "getblk_pass c d n k es =
     Finished (Panic ''fs: asynchronous write''
       (take_reference (free_next (mem k Free_buffers))
          (free_remove (free_next (mem k Free_buffers)) (disable_interrupts k))))"
  using assms by (simp add: getblk_pass_def Let_def)

lemma getblk_pass_miss:
  assumes "hash_search (mem k) (Hashtab (HASH c d n)) d n
             (hash_next (mem k (Hashtab (HASH c d n)))) = Some None"
    and "free_next (mem k Free_buffers) = buf" "buf \<noteq> Free_buffers"
    and "\<not> is_set BUFFER_DIRTY buf k"
  shows "getblk_pass c d n k es =
     Finished (lock_and_return buf
       (hash_insert (HASH c d n) buf
         (upd buf (\<lambda>b. b\<lparr>dev := d, num := n, flags := flags b AND NOT BUFFER_VALID\<rparr>)
           (hash_remove buf (take_reference buf (free_remove buf (disable_interrupts k)))))) es)"
  using assms by (simp add: getblk_pass_def Let_def)

lemma getblk_pass_hang:
  assumes "hash_search (mem k) (Hashtab (HASH c d n)) d n
             (hash_next (mem k (Hashtab (HASH c d n)))) = None"
  shows "getblk_pass c d n k es = Finished (Hang (disable_interrupts k))"
  using assms by (simp add: getblk_pass_def Let_def)

lemma and_not_valid_other:
  "(w AND NOT BUFFER_VALID) AND BUFFER_LOCKED = w AND BUFFER_LOCKED"
  "(w AND NOT BUFFER_VALID) AND BUFFER_DIRTY = w AND BUFFER_DIRTY"
  "(w AND NOT BUFFER_VALID) AND BUFFER_BUSY = w AND BUFFER_BUSY"
  "(w AND NOT BUFFER_VALID) AND BUFFER_VALID = 0"
  unfolding BUFFER_VALID_def BUFFER_DIRTY_def BUFFER_BUSY_def BUFFER_LOCKED_def
  by (simp_all add: and.assoc)

lemma getblk_pass_ready:
  assumes "getblk_ready c d n k"
  shows "(\<exists>r. getblk_pass c d n k es = Finished r \<and> getblk_post d n r
              \<and> (case r of Asleep q k' \<Rightarrow> False | _ \<Rightarrow> True))
       \<or> (\<exists>q k'. getblk_pass c d n k es = Goto_repeat q k' \<and> getblk_post d n (Asleep q k'))"
proof -
  let ?i = "HASH c d n"
  obtain bs where bs: "hash_bucket (mem k) ?i bs"
    using assms by (auto simp: getblk_ready_def)
  have cnt: "0 \<le> sint (count (mem k p))" "sint (count (mem k p)) < 2147483647" for p
    using assms by (simp_all add: getblk_ready_def)
  have hd: "\<not> is_set BUFFER_LOCKED (free_next (mem k Free_buffers)) k"
    using assms by (simp add: getblk_ready_def)
  let ?f = "find (\<lambda>b. dev (mem k b) = d \<and> num (mem k b) = n) bs"
  have s: "hash_search (mem k) (Hashtab ?i) d n (hash_next (mem k (Hashtab ?i))) = Some ?f"
    using bs by (simp add: hash_bucket_def hash_search_bucket)
  show ?thesis
  proof (cases ?f)
    case None
    note s = s [unfolded None]
    show ?thesis
    proof (cases "free_next (mem k Free_buffers) = Free_buffers")
      case True
      show ?thesis
        using getblk_pass_no_free [OF s True, of es] True
        by (simp add: getblk_post_def)
    next
      case False
      let ?b = "free_next (mem k Free_buffers)"
      show ?thesis
      proof (cases "is_set BUFFER_DIRTY ?b k")
        case True
        show ?thesis
          using getblk_pass_dirty [OF s False True, of es] by (simp add: getblk_post_def)
      next
        case d: False
        let ?k6 = "hash_insert ?i ?b
         (upd ?b (\<lambda>b. b\<lparr>dev := d, num := n, flags := flags b AND NOT BUFFER_VALID\<rparr>)
           (hash_remove ?b (take_reference ?b (free_remove ?b (disable_interrupts k)))))"
        have l: "\<not> is_set BUFFER_LOCKED ?b ?k6"
          using hd by (simp add: is_set_def mem_upd and_not_valid_other)
        have p: "getblk_pass c d n k es = Finished (lock_and_return ?b ?k6 es)"
          using getblk_pass_miss [OF s refl False d, of es] .
        have "1 \<le> sint (count (mem k ?b) + 1)"
          using cnt [of ?b] by (simp add: sint_inc)
        then have "getblk_post d n (lock_and_return ?b ?k6 es)"
          unfolding lock_and_return_free [OF l] getblk_post_def
          by (simp add: mem_upd)
        then show ?thesis
          unfolding p by (simp add: lock_and_return_free [OF l])
      qed
    qed
  next
    case (Some b)
    note s = s [unfolded Some]
    have m: "dev (mem k b) = d" "num (mem k b) = n"
      using hash_search_found [OF s] by simp_all
    show ?thesis
    proof (cases "is_set BUFFER_LOCKED b k")
      case True
      show ?thesis
        using getblk_pass_locked [OF s True, of es] True m by (simp add: getblk_post_def)
    next
      case False
      let ?k3 = "if count (mem k b) = 0
        then free_remove b (take_reference b (disable_interrupts k))
        else take_reference b (disable_interrupts k)"
      have l: "\<not> is_set BUFFER_LOCKED b ?k3" using False by simp
      have p: "getblk_pass c d n k es = Finished (lock_and_return b ?k3 es)"
        using getblk_pass_hit [OF s False, of es] .
      have "1 \<le> sint (count (mem k b) + 1)"
        using cnt [of b] by (simp add: sint_inc)
      then have "getblk_post d n (lock_and_return b ?k3 es)"
        unfolding lock_and_return_free [OF l] getblk_post_def
        using m by (simp add: mem_upd)
      then show ?thesis
        unfolding p by (simp add: lock_and_return_free [OF l])
    qed
  qed
qed

lemma getblk_repeat_ready:
  "\<forall>e\<in>set (k # es). getblk_ready c d n e \<Longrightarrow> getblk_post d n (getblk_repeat c d n k es)"
proof (induction es arbitrary: k)
  case Nil
  then have "getblk_ready c d n k" by simp
  from getblk_pass_ready [OF this, of "[]"] show ?case
    by (subst getblk_repeat.simps) auto
next
  case (Cons e es)
  then have "getblk_ready c d n k" by simp
  from getblk_pass_ready [OF this, of "e # es"] show ?case
    using Cons.IH [of e] Cons.prems
    by (subst getblk_repeat.simps) auto
qed

section \<open>Flags\<close>

lemma flags_distinct [simp]:
  "BUFFER_VALID AND BUFFER_VALID \<noteq> 0" "BUFFER_VALID AND BUFFER_BUSY = 0"
  "BUFFER_VALID AND BUFFER_LOCKED = 0" "BUFFER_VALID AND BUFFER_DIRTY = 0"
  "BUFFER_BUSY AND BUFFER_VALID = 0" "BUFFER_BUSY AND BUFFER_BUSY \<noteq> 0"
  "BUFFER_BUSY AND BUFFER_LOCKED = 0" "BUFFER_BUSY AND BUFFER_DIRTY = 0"
  "BUFFER_LOCKED AND BUFFER_VALID = 0" "BUFFER_LOCKED AND BUFFER_BUSY = 0"
  "BUFFER_LOCKED AND BUFFER_LOCKED \<noteq> 0" "BUFFER_LOCKED AND BUFFER_DIRTY = 0"
  "BUFFER_DIRTY AND BUFFER_VALID = 0" "BUFFER_DIRTY AND BUFFER_BUSY = 0"
  "BUFFER_DIRTY AND BUFFER_LOCKED = 0" "BUFFER_DIRTY AND BUFFER_DIRTY \<noteq> 0"
  "BUFFER_VALID \<noteq> 0" "BUFFER_BUSY \<noteq> 0" "BUFFER_LOCKED \<noteq> 0" "BUFFER_DIRTY \<noteq> 0"
  by (simp_all add: BUFFER_VALID_def BUFFER_BUSY_def BUFFER_LOCKED_def BUFFER_DIRTY_def)

lemma is_set_upd_other [simp]: "p \<noteq> buf \<Longrightarrow> is_set f buf (upd p g k) = is_set f buf k"
  by (simp add: is_set_def mem_upd)

lemma is_set_or [simp]:
  "is_set f buf (upd buf (\<lambda>b. b\<lparr>flags := flags b OR g\<rparr>) k) = (is_set f buf k \<or> g AND f \<noteq> 0)"
proof -
  have "(w OR g) AND f = (w AND f) OR (g AND f)" for w :: cint
    by (simp add: bit.conj_disj_distrib2)
  then show ?thesis by (simp add: is_set_def mem_upd or_eq_0_iff)
qed

lemma is_set_and_not [simp]:
  "is_set BUFFER_VALID buf (upd buf (\<lambda>b. b\<lparr>flags := flags b AND NOT BUFFER_LOCKED\<rparr>) k)
     = is_set BUFFER_VALID buf k"
  "is_set BUFFER_DIRTY buf (upd buf (\<lambda>b. b\<lparr>flags := flags b AND NOT BUFFER_LOCKED\<rparr>) k)
     = is_set BUFFER_DIRTY buf k"
  "is_set BUFFER_BUSY buf (upd buf (\<lambda>b. b\<lparr>flags := flags b AND NOT BUFFER_LOCKED\<rparr>) k)
     = is_set BUFFER_BUSY buf k"
  "\<not> is_set BUFFER_LOCKED buf (upd buf (\<lambda>b. b\<lparr>flags := flags b AND NOT BUFFER_LOCKED\<rparr>) k)"
  by (simp_all add: is_set_def mem_upd and_not_locked_other)

lemma is_set_assign [simp]:
  "is_set BUFFER_LOCKED buf
     (upd buf (\<lambda>b. b\<lparr>dev := d, num := n, flags := flags b AND NOT BUFFER_VALID\<rparr>) k)
     = is_set BUFFER_LOCKED buf k"
  "is_set BUFFER_DIRTY buf
     (upd buf (\<lambda>b. b\<lparr>dev := d, num := n, flags := flags b AND NOT BUFFER_VALID\<rparr>) k)
     = is_set BUFFER_DIRTY buf k"
  "is_set BUFFER_BUSY buf
     (upd buf (\<lambda>b. b\<lparr>dev := d, num := n, flags := flags b AND NOT BUFFER_VALID\<rparr>) k)
     = is_set BUFFER_BUSY buf k"
  "\<not> is_set BUFFER_VALID buf
     (upd buf (\<lambda>b. b\<lparr>dev := d, num := n, flags := flags b AND NOT BUFFER_VALID\<rparr>) k)"
  by (simp_all add: is_set_def mem_upd and_not_valid_other)

lemma is_set_count [simp]:
  "is_set f buf (upd p (\<lambda>b. b\<lparr>count := v\<rparr>) k) = is_set f buf k"
  by (simp add: is_set_def mem_upd)

lemma is_set_wakeup [simp]: "is_set f buf (wakeup q k) = is_set f buf k"
  by (cases q) (simp_all add: is_set_def wakeup_def Let_def)

lemma is_set_blkunlock [simp]:
  "is_set BUFFER_VALID buf (blkunlock buf k) = is_set BUFFER_VALID buf k"
  "is_set BUFFER_DIRTY buf (blkunlock buf k) = is_set BUFFER_DIRTY buf k"
  "is_set BUFFER_BUSY buf (blkunlock buf k) = is_set BUFFER_BUSY buf k"
  "\<not> is_set BUFFER_LOCKED buf (blkunlock buf k)"
  by (simp_all add: is_set_def mem_blkunlock and_not_locked_other)

lemma is_set_bdev_readblk [simp]:
  "is_set f buf (bdev_readblk buf k) = (is_set f buf k \<or> BUFFER_VALID AND f \<noteq> 0)"
proof -
  have "(w OR BUFFER_VALID) AND f = (w AND f) OR (BUFFER_VALID AND f)" for w :: cint
    by (simp add: bit.conj_disj_distrib2)
  then show ?thesis by (simp add: is_set_def bdev_readblk_def or_eq_0_iff)
qed

lemma getblk_finished:
  "d \<noteq> 0 \<or> n \<noteq> 0 \<Longrightarrow> getblk_pass c d n k es = Finished r \<Longrightarrow> getblk c d n k es = r"
  by (subst getblk_def, subst getblk_repeat.simps) auto

section \<open>Reading a block\<close>

lemma bdev_readblk_data [simp]:
  "count (mem (bdev_readblk buf k) p) = count (mem k p)"
  "dev (mem (bdev_readblk buf k) p) = dev (mem k p)"
  "num (mem (bdev_readblk buf k) p) = num (mem k p)"
  "hash_next (mem (bdev_readblk buf k) p) = hash_next (mem k p)"
  "devlog (bdev_readblk buf k) = Read_block buf # devlog k"
  by (simp_all add: bdev_readblk_def)

lemma blkunlock_data [simp]:
  "count (mem (blkunlock buf k) p) = count (mem k p)"
  "dev (mem (blkunlock buf k) p) = dev (mem k p)"
  "num (mem (blkunlock buf k) p) = num (mem k p)"
  "hash_next (mem (blkunlock buf k) p) = hash_next (mem k p)"
  "hash_prev (mem (blkunlock buf k) p) = hash_prev (mem k p)"
  "free_next (mem (blkunlock buf k) p) = free_next (mem k p)"
  "free_prev (mem (blkunlock buf k) p) = free_prev (mem k p)"
  "data (mem (blkunlock buf k) p) = data (mem k p)"
  by (simp_all add: mem_blkunlock)

lemma blkunlock_other [simp]:
  "devlog (blkunlock buf k) = devlog k"
  "interrupts (blkunlock buf k) = True"
  by (simp_all add: blkunlock_def enable_interrupts_def wakeup_def Let_def upd_def
      disable_interrupts_def)

lemma wakeup_other [simp]:
  "devlog (wakeup q k) = devlog k"
  "interrupts (wakeup q k) = interrupts k"
  by (cases q; simp add: wakeup_def Let_def)+

lemma interrupts_other [simp]:
  "devlog (enable_interrupts k) = devlog k" "devlog (disable_interrupts k) = devlog k"
  "proctab (enable_interrupts k) = proctab k" "proctab (disable_interrupts k) = proctab k"
  "any_free_chain (enable_interrupts k) = any_free_chain k"
  "any_free_chain (disable_interrupts k) = any_free_chain k"
  "interrupts (enable_interrupts k) = True" "interrupts (disable_interrupts k) = False"
  by (simp_all add: enable_interrupts_def disable_interrupts_def)

lemma upd_other [simp]:
  "devlog (upd p f k) = devlog k" "proctab (upd p f k) = proctab k"
  "any_free_chain (upd p f k) = any_free_chain k" "interrupts (upd p f k) = interrupts k"
  by (simp_all add: upd_def)

lemma bread_after_getblk:
  "getblk c d n k es = Return (buf, es') k' \<Longrightarrow>
   bread c d n k es =
     Return (buf, es') (if is_set BUFFER_VALID buf k' then k' else bdev_readblk buf k')"
  by (simp add: bread_def)

lemma bread_twice_general:
  assumes dn: "d \<noteq> 0 \<or> n \<noteq> 0"
    and s: "hash_search (mem k) (Hashtab (HASH c d n)) d n
              (hash_next (mem k (Hashtab (HASH c d n)))) = Some None"
    and hd: "free_next (mem k Free_buffers) = Buffers v"
    and nd: "\<not> is_set BUFFER_DIRTY (Buffers v) k"
    and nl: "\<not> is_set BUFFER_LOCKED (Buffers v) k"
    and c0: "count (mem k (Buffers v)) = 0"
  shows "bread c d n k es = Return (Buffers v, es) (state_of (bread c d n k es))
       \<and> devlog (state_of (bread c d n k es)) = Read_block (Buffers v) # devlog k
       \<and> brelse (Buffers v) (state_of (bread c d n k es))
           = Return () (state_of (brelse (Buffers v) (state_of (bread c d n k es))))
       \<and> bread c d n (state_of (brelse (Buffers v) (state_of (bread c d n k es)))) es
           = Return (Buffers v, es)
               (state_of (bread c d n (state_of (brelse (Buffers v) (state_of (bread c d n k es)))) es))
       \<and> devlog (state_of (bread c d n (state_of (brelse (Buffers v) (state_of (bread c d n k es)))) es))
           = devlog (state_of (bread c d n k es))
       \<and> is_set BUFFER_VALID (Buffers v) (state_of (brelse (Buffers v) (state_of (bread c d n k es))))
       \<and> dev (mem (state_of (brelse (Buffers v) (state_of (bread c d n k es)))) (Buffers v)) = d
       \<and> num (mem (state_of (brelse (Buffers v) (state_of (bread c d n k es)))) (Buffers v)) = n
       \<and> hash_next (mem (state_of (brelse (Buffers v) (state_of (bread c d n k es))))
                      (Hashtab (HASH c d n))) = Buffers v"
proof -
  let ?B = "Buffers v" and ?i = "HASH c d n"
  let ?k6 = "hash_insert ?i ?B
         (upd ?B (\<lambda>b. b\<lparr>dev := d, num := n, flags := flags b AND NOT BUFFER_VALID\<rparr>)
           (hash_remove ?B (take_reference ?B (free_remove ?B (disable_interrupts k)))))"
  let ?g1 = "enable_interrupts (enable_interrupts
       (upd ?B (\<lambda>b. b\<lparr>flags := flags b OR BUFFER_LOCKED\<rparr>) (disable_interrupts ?k6)))"
  let ?k1 = "bdev_readblk ?B ?g1"
  have l6: "\<not> is_set BUFFER_LOCKED ?B ?k6" using nl by simp
  have p1: "getblk_pass c d n k es = Finished (Return (?B, es) ?g1)"
    using getblk_pass_miss [OF s hd _ nd, of es] by (simp add: lock_and_return_free [OF l6])
  have g1: "getblk c d n k es = Return (?B, es) ?g1"
    by (rule getblk_finished [OF dn p1])
  have v1: "\<not> is_set BUFFER_VALID ?B ?g1" by simp
  have b1: "bread c d n k es = Return (?B, es) ?k1"
    using bread_after_getblk [OF g1] v1 by simp
  have log1: "devlog ?k1 = Read_block ?B # devlog k" by simp
  have cnt1: "count (mem ?k1 ?B) = 1" using c0 by (simp add: mem_upd)
  have fl1: "is_set BUFFER_VALID ?B ?k1" "\<not> is_set BUFFER_DIRTY ?B ?k1"
    using nd by simp_all
  let ?k2 = "enable_interrupts (blkunlock ?B (free_insert_begin ?B
         (wakeup Any_free_chain (upd ?B (\<lambda>b. b\<lparr>count := 0\<rparr>) (disable_interrupts ?k1)))))"
  have r2: "brelse ?B ?k1 = Return () ?k2"
    using brelse_last [OF cnt1] fl1 by simp
  have h2: "hash_next (mem ?k2 (Hashtab ?i)) = ?B"
    by (simp add: mem_upd mem_hash_insert Let_def)
  have id2: "dev (mem ?k2 ?B) = d" "num (mem ?k2 ?B) = n" "count (mem ?k2 ?B) = 0"
    by (simp_all add: mem_upd)
  have fl2: "\<not> is_set BUFFER_LOCKED ?B ?k2" "is_set BUFFER_VALID ?B ?k2"
    using fl1 by simp_all
  have s2: "hash_search (mem ?k2) (Hashtab ?i) d n (hash_next (mem ?k2 (Hashtab ?i)))
              = Some (Some ?B)"
    unfolding h2
    by (subst hash_search.simps) (simp only: id2 bufptr.distinct if_False simp_thms)
  let ?k3 = "free_remove ?B (take_reference ?B (disable_interrupts ?k2))"
  let ?g3 = "enable_interrupts (enable_interrupts
       (upd ?B (\<lambda>b. b\<lparr>flags := flags b OR BUFFER_LOCKED\<rparr>) (disable_interrupts ?k3)))"
  have l3: "\<not> is_set BUFFER_LOCKED ?B ?k3" using fl2 by simp
  have p3: "getblk_pass c d n ?k2 es = Finished (Return (?B, es) ?g3)"
    using getblk_pass_hit [OF s2 fl2(1), of es] id2(3)
    by (simp add: lock_and_return_free [OF l3])
  have g3: "getblk c d n ?k2 es = Return (?B, es) ?g3"
    by (rule getblk_finished [OF dn p3])
  have v3: "is_set BUFFER_VALID ?B ?g3" using fl2 by simp
  have b3: "bread c d n ?k2 es = Return (?B, es) ?g3"
    using bread_after_getblk [OF g3] v3 by simp
  have log3: "devlog ?g3 = devlog ?k1" by simp
  show ?thesis
    by (simp only: b1 r2 b3 state_of.simps log1 log3 simp_thms fl2 id2 h2)
qed

lemma bread_hit_general:
  assumes dn: "d \<noteq> 0 \<or> n \<noteq> 0"
    and bs: "hash_bucket (mem k) (HASH c d n) bs"
    and f: "find (\<lambda>b. dev (mem k b) = d \<and> num (mem k b) = n) bs = Some b"
    and v: "is_set BUFFER_VALID b k"
    and l: "\<not> is_set BUFFER_LOCKED b k"
  shows "\<exists>k'. bread c d n k es = Return (b, es) k' \<and> devlog k' = devlog k"
proof -
  let ?i = "HASH c d n"
  have s: "hash_search (mem k) (Hashtab ?i) d n (hash_next (mem k (Hashtab ?i))) = Some (Some b)"
    using bs f by (simp add: hash_bucket_def hash_search_bucket)
  let ?k3 = "if count (mem k b) = 0
        then free_remove b (take_reference b (disable_interrupts k))
        else take_reference b (disable_interrupts k)"
  let ?g = "enable_interrupts (enable_interrupts
       (upd b (\<lambda>b. b\<lparr>flags := flags b OR BUFFER_LOCKED\<rparr>) (disable_interrupts ?k3)))"
  have l3: "\<not> is_set BUFFER_LOCKED b ?k3" using l by simp
  have "getblk_pass c d n k es = Finished (lock_and_return b ?k3 es)"
    by (rule getblk_pass_hit [OF s l])
  then have "getblk c d n k es = lock_and_return b ?k3 es"
    by (rule getblk_finished [OF dn])
  then have g: "getblk c d n k es = Return (b, es) ?g"
    unfolding lock_and_return_free [OF l3] .
  have vg: "is_set BUFFER_VALID b ?g" using v by simp
  have "bread c d n k es = Return (b, es) ?g"
    using bread_after_getblk [OF g] vg by simp
  moreover have "devlog ?g = devlog k" by simp
  ultimately show ?thesis by blast
qed

lemma HASH_less: "0 < BUFFERS_HASHTAB_SIZE c \<Longrightarrow> HASH c d n < BUFFERS_HASHTAB_SIZE c"
  by (simp add: HASH_def)

section \<open>The small configuration at work\<close>

lemmas run_defs = small_config_def zero_buffer_def ready_process_def lottery_kernel_def
  fresh_cache_def binit_def binit_buffer_def binit_bucket_def upd_def Let_def
  bread_def getblk_def getblk_repeat.simps getblk_pass_def HASH_def
  disable_interrupts_def enable_interrupts_def hash_search.simps is_set_def free_remove_def
  hash_remove_def hash_insert_def lock_and_return_def blklock_def take_reference_def
  BUFFER_VALID_def BUFFER_LOCKED_def BUFFER_DIRTY_def BUFFER_BUSY_def bdev_readblk_def
  bdev_writeblk_def brelse_def blkunlock_def wakeup_def free_insert_begin_def
  free_insert_end_def sched_at_def sched_def mark_dirty_def upt_rec

lemma read_cache_eval:
  "mem read_cache (Buffers 0) =
     \<lparr>dev = 1, num = 10, data = 0xC0000000, count = 1, flags = 0xFFFFFFF5, chain = [],
      free_next = Buffers 1, free_prev = Free_buffers,
      hash_next = Hashtab 2, hash_prev = Hashtab 2\<rparr>"
  "free_next (mem read_cache Free_buffers) = Buffers 1"
  "free_prev (mem read_cache Free_buffers) = Buffers 3"
  "mem read_cache (Buffers (Suc 0)) = mem fresh_cache (Buffers (Suc 0))\<lparr>free_prev := Free_buffers\<rparr>"
  "mem read_cache (Buffers 2) = mem fresh_cache (Buffers 2)"
  "mem read_cache (Buffers 3) = mem fresh_cache (Buffers 3)"
  "hash_next (mem read_cache (Hashtab 2)) = Buffers 0"
  "devlog read_cache = [Read_block (Buffers 0)]"
  "interrupts read_cache"
  "any_free_chain read_cache = []"
  "proctab read_cache = proctab (lottery_kernel 0)"
  by (simp_all add: read_cache_def run_defs)

lemma fresh_cache_mem:
  "mem fresh_cache (Buffers (Suc 0)) =
     \<lparr>dev = 0, num = 0, data = 0xC0000400, count = 0, flags = 0xFFFFFFF0, chain = [],
      free_next = Buffers 2, free_prev = Buffers 0,
      hash_next = Buffers 1, hash_prev = Buffers 1\<rparr>"
  "mem fresh_cache (Buffers 2) =
     \<lparr>dev = 0, num = 0, data = 0xC0000800, count = 0, flags = 0xFFFFFFF0, chain = [],
      free_next = Buffers 3, free_prev = Buffers 1,
      hash_next = Buffers 2, hash_prev = Buffers 2\<rparr>"
  "mem fresh_cache (Buffers 3) =
     \<lparr>dev = 0, num = 0, data = 0xC0000C00, count = 0, flags = 0xFFFFFFF0, chain = [],
      free_next = Free_buffers, free_prev = Buffers 2,
      hash_next = Buffers 3, hash_prev = Buffers 3\<rparr>"
  by (simp_all add: run_defs)

lemma waiting_cache_eval:
  "mem waiting_cache (Buffers 0) =
     \<lparr>dev = 1, num = 10, data = 0xC0000000, count = 1, flags = 0xFFFFFFF5, chain = [1],
      free_next = Buffers 1, free_prev = Free_buffers,
      hash_next = Hashtab 2, hash_prev = Hashtab 2\<rparr>"
  "mem waiting_cache Free_buffers = mem read_cache Free_buffers"
  "mem waiting_cache (Buffers (Suc 0)) = mem read_cache (Buffers (Suc 0))"
  "mem waiting_cache (Buffers 2) = mem read_cache (Buffers 2)"
  "mem waiting_cache (Buffers 3) = mem read_cache (Buffers 3)"
  "any_free_chain waiting_cache = [2]"
  "state (proctab waiting_cache (Suc 0)) = PROC_WAITING"
  "state (proctab waiting_cache 2) = PROC_WAITING"
  by (simp_all add: waiting_cache_def sleeping_def Let_def upd_def read_cache_eval)

lemma waiting_cache_free_list: "free_list (mem waiting_cache) [1, 2, 3]"
  by (simp add: free_list_def waiting_cache_eval read_cache_eval fresh_cache_mem)

lemma released_cache_eval:
  "mem released_cache (Buffers 0) =
     \<lparr>dev = 1, num = 10, data = 0xC0000000, count = 0, flags = 0xFFFFFFF1, chain = [],
      free_next = Buffers 1, free_prev = Free_buffers,
      hash_next = Hashtab 2, hash_prev = Hashtab 2\<rparr>"
  "free_next (mem released_cache Free_buffers) = Buffers 0"
  "free_prev (mem released_cache Free_buffers) = Buffers 3"
  "mem released_cache (Buffers (Suc 0)) = mem fresh_cache (Buffers (Suc 0))\<lparr>free_prev := Buffers 0\<rparr>"
  "mem released_cache (Buffers 2) = mem fresh_cache (Buffers 2)"
  "mem released_cache (Buffers 3) = mem fresh_cache (Buffers 3)"
  "hash_next (mem released_cache (Hashtab 2)) = Buffers 0"
  "devlog released_cache = [Read_block (Buffers 0)]"
  "interrupts released_cache"
  "brelse (Buffers 0) read_cache = Return () released_cache"
  unfolding released_cache_def
  by (simp_all add: brelse_last read_cache_eval is_set_def BUFFER_VALID_def BUFFER_DIRTY_def
     mem_free_insert_begin Let_def mem_blkunlock mem_upd fresh_cache_mem BUFFER_LOCKED_def)

lemma released_cache_free_list: "free_list (mem released_cache) [0, 1, 2, 3]"
  by (simp add: free_list_def released_cache_eval fresh_cache_mem)

lemma free_list_frame:
  "free_list m xs \<Longrightarrow>
   (\<forall>p. free_next (m' p) = free_next (m p) \<and> free_prev (m' p) = free_prev (m p)) \<Longrightarrow>
   free_list m' xs"
  using free_list_links [of m' m xs] by simp

lemma dirty_cache_eval:
  "hash_next (mem dirty_cache (Hashtab 0)) = Buffers 3"
  "dev (mem dirty_cache (Buffers 3)) = 1"
  "num (mem dirty_cache (Buffers 3)) = 13"
  "hash_next (mem dirty_cache (Buffers 3)) = Hashtab 0"
  "free_next (mem dirty_cache Free_buffers) = Buffers 0"
  "flags (mem dirty_cache (Buffers 0)) = 0xFFFFFFF9"
  by (simp_all add: dirty_cache_def dirty_released_def read_cache_def run_defs)

lemma two_blocks_cache_eval:
  "hash_next (mem two_blocks_cache (Hashtab 2)) = Buffers (Suc 0)"
  "hash_next (mem two_blocks_cache (Buffers (Suc 0))) = Buffers 0"
  "hash_next (mem two_blocks_cache (Buffers 0)) = Hashtab 2"
  "dev (mem two_blocks_cache (Buffers (Suc 0))) = 1"
  "num (mem two_blocks_cache (Buffers (Suc 0))) = 4"
  "dev (mem two_blocks_cache (Buffers 0)) = 1"
  "num (mem two_blocks_cache (Buffers 0)) = 10"
  "flags (mem two_blocks_cache (Buffers 0)) = 0xFFFFFFF1"
  "count (mem two_blocks_cache (Buffers 0)) = 0"
  "devlog two_blocks_cache = [Read_block (Buffers 1), Read_block (Buffers 0)]"
  by (simp_all add: two_blocks_cache_def read_cache_def run_defs word_sless_alt)

lemma getblk_returns_hit:
  assumes dn: "d \<noteq> 0 \<or> n \<noteq> 0"
    and bs: "hash_bucket (mem k) (HASH c d n) bs"
    and f: "find (\<lambda>b. dev (mem k b) = d \<and> num (mem k b) = n) bs = Some b"
    and l: "\<not> is_set BUFFER_LOCKED b k"
  shows "\<exists>k'. getblk c d n k es = Return (b, es) k'"
proof -
  let ?i = "HASH c d n"
  have s: "hash_search (mem k) (Hashtab ?i) d n (hash_next (mem k (Hashtab ?i))) = Some (Some b)"
    using bs f by (simp add: hash_bucket_def hash_search_bucket)
  let ?k3 = "if count (mem k b) = 0
        then free_remove b (take_reference b (disable_interrupts k))
        else take_reference b (disable_interrupts k)"
  have l3: "\<not> is_set BUFFER_LOCKED b ?k3" using l by simp
  have "getblk_pass c d n k es = Finished (lock_and_return b ?k3 es)"
    by (rule getblk_pass_hit [OF s l])
  then have "getblk c d n k es = lock_and_return b ?k3 es"
    by (rule getblk_finished [OF dn])
  then show ?thesis
    unfolding lock_and_return_free [OF l3] by blast
qed

lemma getblk_returns_miss:
  assumes dn: "d \<noteq> 0 \<or> n \<noteq> 0"
    and bs: "hash_bucket (mem k) (HASH c d n) bs"
    and f: "find (\<lambda>b. dev (mem k b) = d \<and> num (mem k b) = n) bs = None"
    and hd: "free_next (mem k Free_buffers) = buf" "buf \<noteq> Free_buffers"
    and nd: "\<not> is_set BUFFER_DIRTY buf k" and l: "\<not> is_set BUFFER_LOCKED buf k"
  shows "\<exists>k'. getblk c d n k es = Return (buf, es) k'"
proof -
  let ?i = "HASH c d n"
  have s: "hash_search (mem k) (Hashtab ?i) d n (hash_next (mem k (Hashtab ?i))) = Some None"
    using bs f by (simp add: hash_bucket_def hash_search_bucket)
  let ?k6 = "hash_insert ?i buf
         (upd buf (\<lambda>b. b\<lparr>dev := d, num := n, flags := flags b AND NOT BUFFER_VALID\<rparr>)
           (hash_remove buf (take_reference buf (free_remove buf (disable_interrupts k)))))"
  have l6: "\<not> is_set BUFFER_LOCKED buf ?k6" using l by simp
  have "getblk_pass c d n k es = Finished (lock_and_return buf ?k6 es)"
    by (rule getblk_pass_miss [OF s hd nd])
  then have "getblk c d n k es = lock_and_return buf ?k6 es"
    by (rule getblk_finished [OF dn])
  then show ?thesis
    unfolding lock_and_return_free [OF l6] by blast
qed

lemma count_read_cache: "count (mem read_cache p) = (if p = Buffers 0 then 1 else 0)"
  by (cases p) (simp_all add: read_cache_def run_defs)

lemma count_released_cache: "count (mem released_cache p) = 0"
  by (cases p) (simp_all add: released_cache_def read_cache_def run_defs)


lemma hash_small: "HASH small_config 1 10 = 2"
  by (simp add: HASH_def small_config_def)

lemma getblk_ready_read_cache: "getblk_ready small_config 1 10 read_cache"
proof -
  have "hash_bucket (mem read_cache) 2 [Buffers 0]"
    by (simp add: hash_bucket_def read_cache_eval)
  then have "\<exists>bs. hash_bucket (mem read_cache) (HASH small_config 1 10) bs"
    unfolding hash_small by blast
  moreover have "\<not> is_set BUFFER_LOCKED (free_next (mem read_cache Free_buffers)) read_cache"
    by (simp add: read_cache_eval fresh_cache_mem is_set_def BUFFER_LOCKED_def)
  ultimately show ?thesis
    by (simp add: getblk_ready_def count_read_cache)
qed

lemma getblk_ready_released_cache: "getblk_ready small_config 1 10 released_cache"
proof -
  have "hash_bucket (mem released_cache) 2 [Buffers 0]"
    by (simp add: hash_bucket_def released_cache_eval)
  then have "\<exists>bs. hash_bucket (mem released_cache) (HASH small_config 1 10) bs"
    unfolding hash_small by blast
  moreover have "\<not> is_set BUFFER_LOCKED (free_next (mem released_cache Free_buffers)) released_cache"
    by (simp add: released_cache_eval is_set_def BUFFER_LOCKED_def)
  ultimately show ?thesis
    by (simp add: getblk_ready_def count_released_cache)
qed

lemma getblk_after_sleep:
  "getblk small_config 1 10 read_cache [released_cache] =
     Return (Buffers 0, []) (state_of (getblk small_config 1 10 read_cache [released_cache]))"
proof -
  have l: "is_set BUFFER_LOCKED (Buffers 0) read_cache"
    by (simp add: read_cache_eval is_set_def BUFFER_LOCKED_def)
  have s: "hash_search (mem read_cache) (Hashtab (HASH small_config 1 10)) 1 10
             (hash_next (mem read_cache (Hashtab (HASH small_config 1 10)))) = Some (Some (Buffers 0))"
    unfolding hash_small by (subst hash_search.simps) (simp add: read_cache_eval)
  have p: "getblk_pass small_config 1 10 read_cache [released_cache]
             = Goto_repeat (Buffer_chain (Buffers 0)) (disable_interrupts read_cache)"
    by (rule getblk_pass_locked [OF s l])
  have "getblk small_config 1 10 read_cache [released_cache]
          = getblk small_config 1 10 released_cache []"
    by (simp add: getblk_def getblk_repeat.simps [of _ _ _ read_cache] p)
  moreover obtain k' where "getblk small_config 1 10 released_cache [] = Return (Buffers 0, []) k'"
    using getblk_returns_hit [of 1 10 released_cache small_config "[Buffers 0]" "Buffers 0" "[]"]
    by (auto simp: hash_small hash_bucket_def released_cache_eval is_set_def BUFFER_LOCKED_def)
  ultimately show ?thesis by simp
qed

section \<open>The reference counts and the free list\<close>

text \<open>A memory holds at most one free list.\<close>

lemma free_seg_unique:
  "free_seg m prev p xs \<Longrightarrow> free_seg m prev p ys \<Longrightarrow> xs = ys"
proof (induction xs arbitrary: prev p ys)
  case Nil
  then show ?case by (cases ys) auto
next
  case (Cons x xs)
  then show ?case by (cases ys) auto
qed

lemma free_list_unique: "free_list m xs \<Longrightarrow> free_list m ys \<Longrightarrow> xs = ys"
  by (auto simp: free_list_def dest: free_seg_unique)

text \<open>The neighbours of a buffer of the list, and the list without it after the two
  assignments of \<open>free_remove\<close>.\<close>

lemma free_seg_mid:
  "free_seg m prev p (as @ i # cs) \<Longrightarrow>
   free_prev (m (Buffers i)) = (if as = [] then prev else Buffers (last as))
   \<and> free_next (m (Buffers i)) = (if cs = [] then Free_buffers else Buffers (hd cs))"
proof (induction as arbitrary: prev p)
  case Nil
  then show ?case by (cases cs) auto
next
  case (Cons a as)
  from Cons.prems have "free_seg m p (free_next (m p)) (as @ i # cs)" "p = Buffers a"
    by auto
  from Cons.IH [OF this(1)] this(2) show ?case by auto
qed

lemma free_seg_remove:
  fixes m :: "bufptr \<Rightarrow> buffer" and i :: nat
  defines "P \<equiv> free_prev (m (Buffers i))" and "N \<equiv> free_next (m (Buffers i))"
  defines "m1 \<equiv> m(P := (m P)\<lparr>free_next := N\<rparr>)"
  defines "m2 \<equiv> m1(N := (m1 N)\<lparr>free_prev := P\<rparr>)"
  assumes "free_seg m prev p (as @ i # cs)" and "distinct (as @ i # cs)"
    and "prev \<notin> Buffers ` set (as @ i # cs)"
  shows "free_seg m2 prev (if as = [] then N else p) (as @ cs)"
  using assms(5-7)
proof (induction as arbitrary: prev p)
  case Nil
  then have p: "p = Buffers i" "P = prev" "free_seg m (Buffers i) N cs"
    by (auto simp: P_def N_def)
  have pi: "prev \<noteq> Buffers i" "prev \<notin> Buffers ` set cs" "i \<notin> set cs" "distinct cs"
    using Nil.prems by auto
  show ?case
  proof (cases cs)
    case Nil
    then have "N = Free_buffers" using p(3) by simp
    then show ?thesis using Nil p(2) by (simp add: m2_def)
  next
    case (Cons c cs')
    then have n: "N = Buffers c" "free_seg m N (free_next (m N)) cs'"
      using p(3) by auto
    have ne: "P \<noteq> N" "c \<notin> set cs'" "c \<noteq> i" "prev \<notin> Buffers ` set cs'"
      using pi Cons p(2) n(1) by auto
    have "free_seg m2 N (free_next (m N)) cs'"
    proof (rule free_seg_frame [OF n(2)])
      show "\<forall>x\<in>set cs'. free_next (m2 (Buffers x)) = free_next (m (Buffers x))
               \<and> free_prev (m2 (Buffers x)) = free_prev (m (Buffers x))"
        using ne n(1) p(2) by (auto simp: m2_def m1_def)
      show "free_prev (m2 Free_buffers) = free_prev (m Free_buffers)"
        using n(1) by (auto simp: m2_def m1_def)
    qed
    moreover have "free_next (m2 N) = free_next (m N)" "free_prev (m2 N) = prev"
      using ne(1) p(2) by (simp_all add: m2_def m1_def)
    ultimately show ?thesis using Cons n(1) by simp
  qed
next
  case (Cons a as)
  have p: "p = Buffers a" "free_prev (m p) = prev"
    "free_seg m p (free_next (m p)) (as @ i # cs)"
    using Cons.prems(1) by auto
  have d: "distinct (as @ i # cs)" "p \<notin> Buffers ` set (as @ i # cs)" "a \<noteq> i" "a \<notin> set cs"
    "a \<notin> set as"
    using Cons.prems(2) p(1) by auto
  have ih: "free_seg m2 p (if as = [] then N else free_next (m p)) (as @ cs)"
    by (rule Cons.IH [OF p(3) d(1) d(2)])
  have mid: "P = (if as = [] then p else Buffers (last as))"
    "N = (if cs = [] then Free_buffers else Buffers (hd cs))"
    using free_seg_mid [OF p(3)] by (simp_all add: P_def N_def)
  have N: "N \<noteq> p" using mid(2) p(1) d(4) by (cases cs) auto
  have Pp: "as \<noteq> [] \<Longrightarrow> P \<noteq> p" using mid(1) p(1) d(5) by (auto dest: last_in_set)
  have "free_prev (m2 p) = prev"
    using N p(2) by (auto simp: m2_def m1_def)
  moreover have "free_next (m2 p) = (if as = [] then N else free_next (m p))"
  proof (cases "as = []")
    case True
    then have "P = p" using mid(1) by simp
    then show ?thesis using N True by (simp add: m2_def m1_def)
  next
    case False
    then have "P \<noteq> p" by (rule Pp)
    then show ?thesis using N False by (simp add: m2_def m1_def)
  qed
  ultimately show ?case using ih p(1) by simp
qed

lemma free_list_remove:
  assumes "free_list (mem k) xs" and "i \<in> set xs"
  shows "free_list (mem (free_remove (Buffers i) k)) (remove1 i xs)"
proof -
  let ?m = "mem k" and ?B = "Buffers i"
  obtain as cs where xs: "xs = as @ i # cs" using split_list [OF assms(2)] by blast
  have seg: "free_seg ?m Free_buffers (free_next (?m Free_buffers)) (as @ i # cs)"
    and d: "distinct (as @ i # cs)"
    using assms(1) by (simp_all add: free_list_def xs)
  let ?P = "free_prev (?m ?B)" and ?N = "free_next (?m ?B)"
  let ?m1 = "(?m)(?P := (?m ?P)\<lparr>free_next := ?N\<rparr>)"
  let ?m2 = "?m1(?N := (?m1 ?N)\<lparr>free_prev := ?P\<rparr>)"
  have mid: "?P = (if as = [] then Free_buffers else Buffers (last as))"
    "?N = (if cs = [] then Free_buffers else Buffers (hd cs))"
    using free_seg_mid [OF seg] by simp_all
  have PB: "?P \<noteq> ?B" using mid(1) d by (auto dest: last_in_set)
  have m': "mem (free_remove ?B k) = ?m2"
    using PB by (simp add: mem_free_remove Let_def)
  have r: "free_seg ?m2 Free_buffers (if as = [] then ?N else free_next (?m Free_buffers)) (as @ cs)"
    by (rule free_seg_remove [OF seg d]) auto
  have fn: "free_next (?m2 Free_buffers) = (if as = [] then ?N else free_next (?m Free_buffers))"
    using mid by (auto simp: )
  have rm: "remove1 i xs = as @ cs" using d by (simp add: xs remove1_append)
  show ?thesis
    unfolding free_list_def m' rm fn using r d by simp
qed


text \<open>The invariant depends on the links of the free list and on the counts only.\<close>

lemma count_invariantI:
  "free_list (mem k) xs \<Longrightarrow>
   set xs = {i. i < NR_BUFFERS c \<and> count (mem k (Buffers i)) = 0} \<Longrightarrow> count_invariant c k"
  unfolding count_invariant_def by blast

lemma count_invariant_frame:
  assumes "count_invariant c k"
    and "\<forall>p. free_next (mem k' p) = free_next (mem k p)
           \<and> free_prev (mem k' p) = free_prev (mem k p)
           \<and> count (mem k' p) = count (mem k p)"
  shows "count_invariant c k'"
proof -
  obtain xs where xs: "free_list (mem k) xs"
    "set xs = {i. i < NR_BUFFERS c \<and> count (mem k (Buffers i)) = 0}"
    using assms(1) unfolding count_invariant_def by blast
  have "free_list (mem k') xs"
    by (rule free_list_frame [OF xs(1)]) (simp add: assms(2))
  then show ?thesis
    by (rule count_invariantI) (simp add: xs(2) assms(2))
qed

text \<open>It holds after \<open>binit\<close>.\<close>

lemma count_invariant_binit:
  assumes "0 < NR_BUFFERS c"
  shows "count_invariant c (binit c k)"
proof (rule count_invariantI)
  show "free_list (mem (binit c k)) [0 ..< NR_BUFFERS c]"
    using free_seg_binit [of 0 c k] assms by (simp add: free_list_def mem_binit)
  show "set [0 ..< NR_BUFFERS c]
          = {i. i < NR_BUFFERS c \<and> count (mem (binit c k) (Buffers i)) = 0}"
    by (auto simp: mem_binit init_buffer_def)
qed

text \<open>Taking a reference: with the unlinking, in either order, when the count was 0, and
  alone otherwise. After the increment alone of a count of 0 the invariant is broken.\<close>

lemma count_invariant_unlink:
  assumes "count_invariant c k" "i < NR_BUFFERS c" "count (mem k (Buffers i)) = 0"
  shows "count_invariant c (free_remove (Buffers i) (take_reference (Buffers i) k))"
    and "count_invariant c (take_reference (Buffers i) (free_remove (Buffers i) k))"
proof -
  obtain xs where xs: "free_list (mem k) xs"
    "set xs = {i. i < NR_BUFFERS c \<and> count (mem k (Buffers i)) = 0}"
    using assms(1) unfolding count_invariant_def by blast
  have i: "i \<in> set xs" using assms(2,3) by (simp add: xs(2))
  have d: "distinct xs" using xs(1) by (simp add: free_list_def)
  have s: "set (remove1 i xs) = {j. j < NR_BUFFERS c \<and> j \<noteq> i \<and> count (mem k (Buffers j)) = 0}"
    using d xs(2) by auto
  have "free_list (mem (take_reference (Buffers i) k)) xs"
    by (rule free_list_frame [OF xs(1)]) (simp add: take_reference_def mem_upd)
  from free_list_remove [OF this i]
  show "count_invariant c (free_remove (Buffers i) (take_reference (Buffers i) k))"
    by (rule count_invariantI) (use assms(3) in \<open>auto simp: s take_reference_def mem_upd\<close>)
  have "free_list (mem (take_reference (Buffers i) (free_remove (Buffers i) k))) (remove1 i xs)"
    by (rule free_list_frame [OF free_list_remove [OF xs(1) i]])
      (simp add: take_reference_def mem_upd)
  then show "count_invariant c (take_reference (Buffers i) (free_remove (Buffers i) k))"
    by (rule count_invariantI) (use assms(3) in \<open>auto simp: s take_reference_def mem_upd\<close>)
qed

lemma count_invariant_reference:
  assumes "count_invariant c k" "count (mem k b) \<noteq> 0" "count (mem k b) \<noteq> - 1"
  shows "count_invariant c (take_reference b k)"
proof -
  obtain xs where xs: "free_list (mem k) xs"
    "set xs = {i. i < NR_BUFFERS c \<and> count (mem k (Buffers i)) = 0}"
    using assms(1) unfolding count_invariant_def by blast
  have n: "count (mem k b) + 1 \<noteq> 0"
    using assms(3) by (simp add: add_eq_0_iff2)
  have "free_list (mem (take_reference b k)) xs"
    by (rule free_list_frame [OF xs(1)]) (simp add: take_reference_def mem_upd)
  then show ?thesis
    by (rule count_invariantI) (use assms(2) n in \<open>auto simp: xs(2) take_reference_def mem_upd\<close>)
qed

lemma count_invariant_window:
  assumes "count_invariant c k" "i < NR_BUFFERS c" "count (mem k (Buffers i)) = 0"
  shows "\<not> count_invariant c (take_reference (Buffers i) k)"
proof
  assume "count_invariant c (take_reference (Buffers i) k)"
  then obtain ys where ys: "free_list (mem (take_reference (Buffers i) k)) ys"
    "set ys = {j. j < NR_BUFFERS c \<and> count (mem (take_reference (Buffers i) k) (Buffers j)) = 0}"
    unfolding count_invariant_def by blast
  obtain xs where xs: "free_list (mem k) xs"
    "set xs = {i. i < NR_BUFFERS c \<and> count (mem k (Buffers i)) = 0}"
    using assms(1) unfolding count_invariant_def by blast
  have "free_list (mem (take_reference (Buffers i) k)) xs"
    by (rule free_list_frame [OF xs(1)]) (simp add: take_reference_def mem_upd)
  then have "ys = xs" using ys(1) by (rule free_list_unique [rotated])
  moreover have "i \<in> set xs" using assms(2,3) by (simp add: xs(2))
  moreover have "i \<notin> set ys"
    using assms(3) by (simp add: ys(2) take_reference_def mem_upd)
  ultimately show False by simp
qed


text \<open>\<open>brelse\<close> of a buffer that is referenced keeps it.\<close>

lemma count_invariant_brelse:
  assumes "count_invariant c k" "i < NR_BUFFERS c" "1 \<le> sint (count (mem k (Buffers i)))"
  shows "\<exists>k'. brelse (Buffers i) k = Return () k' \<and> interrupts k' \<and> count_invariant c k'"
proof (cases "count (mem k (Buffers i)) = 1")
  case True
  obtain xs where xs: "free_list (mem k) xs"
    "set xs = {i. i < NR_BUFFERS c \<and> count (mem k (Buffers i)) = 0}"
    using assms(1) unfolding count_invariant_def by blast
  let ?b = "Buffers i"
  let ?k2 = "wakeup Any_free_chain (upd ?b (\<lambda>b. b\<lparr>count := 0\<rparr>) (disable_interrupts k))"
  have ni: "i \<notin> set xs" using True by (simp add: xs(2))
  have f2: "free_list (mem ?k2) xs"
    by (rule free_list_frame [OF xs(1)]) (simp add: mem_upd)
  have "count_invariant c (free_insert_end ?b ?k2)"
    using free_list_insert_end [OF f2 ni]
    by (rule count_invariantI) (use assms(2) in \<open>auto simp: xs(2) mem_upd\<close>)
  moreover have "count_invariant c (free_insert_begin ?b ?k2)"
    using free_list_insert_begin [OF f2 ni]
    by (rule count_invariantI) (use assms(2) in \<open>auto simp: xs(2) mem_upd\<close>)
  ultimately have "count_invariant c
     ((if is_set BUFFER_VALID ?b k \<and> is_set BUFFER_DIRTY ?b k
       then free_insert_end ?b else free_insert_begin ?b) ?k2)"
    by simp
  then have "count_invariant c (enable_interrupts (blkunlock ?b
     ((if is_set BUFFER_VALID ?b k \<and> is_set BUFFER_DIRTY ?b k
       then free_insert_end ?b else free_insert_begin ?b) ?k2)))"
    by (rule count_invariant_frame) simp
  then show ?thesis
    unfolding brelse_last [OF True] by simp
next
  case False
  have n: "count (mem k (Buffers i)) - 1 \<noteq> 0" using False by simp
  have "count_invariant c (upd (Buffers i) (\<lambda>b. b\<lparr>count := count b - 1\<rparr>) (disable_interrupts k))"
  proof -
    obtain xs where xs: "free_list (mem k) xs"
      "set xs = {i. i < NR_BUFFERS c \<and> count (mem k (Buffers i)) = 0}"
      using assms(1) unfolding count_invariant_def by blast
    have z: "count (mem k (Buffers i)) \<noteq> 0" using assms(3) by auto
    have "free_list (mem (upd (Buffers i) (\<lambda>b. b\<lparr>count := count b - 1\<rparr>) (disable_interrupts k))) xs"
      by (rule free_list_frame [OF xs(1)]) (simp add: mem_upd)
    then show ?thesis
      by (rule count_invariantI) (use n z in \<open>auto simp: xs(2) mem_upd\<close>)
  qed
  then have "count_invariant c (enable_interrupts (blkunlock (Buffers i)
         (upd (Buffers i) (\<lambda>b. b\<lparr>count := count b - 1\<rparr>) (disable_interrupts k))))"
    by (rule count_invariant_frame) simp
  then show ?thesis
    unfolding brelse_more [OF assms(3) False] by simp
qed


text \<open>\<open>getblk\<close> keeps it, whatever the number of times it has slept.\<close>

lemma count_invariant_head:
  assumes "count_invariant c k" "free_next (mem k Free_buffers) \<noteq> Free_buffers"
  shows "\<exists>i. free_next (mem k Free_buffers) = Buffers i \<and> i < NR_BUFFERS c
              \<and> count (mem k (Buffers i)) = 0"
proof -
  obtain xs where xs: "free_list (mem k) xs"
    "set xs = {i. i < NR_BUFFERS c \<and> count (mem k (Buffers i)) = 0}"
    using assms(1) unfolding count_invariant_def by blast
  show ?thesis
  proof (cases xs)
    case Nil
    then show ?thesis using xs(1) assms(2) by (simp add: free_list_def)
  next
    case (Cons x ys)
    then have "free_next (mem k Free_buffers) = Buffers x" "x \<in> set xs"
      using xs(1) by (simp_all add: free_list_def)
    then show ?thesis using xs(2) by auto
  qed
qed

lemma count_invariant_getblk_pass:
  assumes "getblk_ready c d n k" "count_invariant c k"
    and "hash_bucket (mem k) (HASH c d n) bs" "set bs \<subseteq> Buffers ` {..<NR_BUFFERS c}"
    and "getblk_pass c d n k es = Finished (Return r k')"
  shows "interrupts k' \<and> count_invariant c k'"
proof -
  let ?i = "HASH c d n"
  let ?k1 = "disable_interrupts k"
  have cnt: "0 \<le> sint (count (mem k p))" "sint (count (mem k p)) < 2147483647" for p
    using assms(1) by (simp_all add: getblk_ready_def)
  have hd: "\<not> is_set BUFFER_LOCKED (free_next (mem k Free_buffers)) k"
    using assms(1) by (simp add: getblk_ready_def)
  have inv1: "count_invariant c ?k1"
    using assms(2) by (rule count_invariant_frame) simp
  let ?f = "find (\<lambda>b. dev (mem k b) = d \<and> num (mem k b) = n) bs"
  have s: "hash_search (mem k) (Hashtab ?i) d n (hash_next (mem k (Hashtab ?i))) = Some ?f"
    using assms(3) by (simp add: hash_bucket_def hash_search_bucket)
  show ?thesis
  proof (cases ?f)
    case None
    note s = s [unfolded None]
    show ?thesis
    proof (cases "free_next (mem k Free_buffers) = Free_buffers")
      case True
      show ?thesis
        using getblk_pass_no_free [OF s True, of es] assms(5) by simp
    next
      case False
      let ?b = "free_next (mem k Free_buffers)"
      obtain x where x: "?b = Buffers x" "x < NR_BUFFERS c" "count (mem k (Buffers x)) = 0"
        using count_invariant_head [OF assms(2) False] by blast
      show ?thesis
      proof (cases "is_set BUFFER_DIRTY ?b k")
        case True
        show ?thesis
          using getblk_pass_dirty [OF s False True, of es] assms(5) by simp
      next
        case d: False
        let ?k3 = "take_reference ?b (free_remove ?b ?k1)"
        let ?k6 = "hash_insert ?i ?b
         (upd ?b (\<lambda>b. b\<lparr>dev := d, num := n, flags := flags b AND NOT BUFFER_VALID\<rparr>)
           (hash_remove ?b ?k3))"
        let ?k7 = "enable_interrupts (enable_interrupts
           (upd ?b (\<lambda>b. b\<lparr>flags := flags b OR BUFFER_LOCKED\<rparr>) (disable_interrupts ?k6)))"
        have l: "\<not> is_set BUFFER_LOCKED ?b ?k6"
          using hd by (simp add: is_set_def mem_upd and_not_valid_other)
        have p: "getblk_pass c d n k es = Finished (lock_and_return ?b ?k6 es)"
          using getblk_pass_miss [OF s refl False d, of es] .
        have k': "k' = ?k7"
          using assms(5) unfolding p lock_and_return_free [OF l] by simp
        have "count_invariant c ?k3"
          unfolding x(1) by (rule count_invariant_unlink(2) [OF inv1 x(2)]) (simp add: x(3))
        then have "count_invariant c ?k7"
          by (rule count_invariant_frame) (simp add: mem_upd)
        then show ?thesis unfolding k' by simp
      qed
    qed
  next
    case (Some b)
    note s = s [unfolded Some]
    have "b \<in> set bs" using Some by (auto simp: find_Some_iff)
    then obtain x where x: "b = Buffers x" "x < NR_BUFFERS c"
      using assms(4) by auto
    show ?thesis
    proof (cases "is_set BUFFER_LOCKED b k")
      case True
      show ?thesis
        using getblk_pass_locked [OF s True, of es] assms(5) by simp
    next
      case False
      let ?k3 = "if count (mem k b) = 0
        then free_remove b (take_reference b ?k1)
        else take_reference b ?k1"
      let ?k7 = "enable_interrupts (enable_interrupts
           (upd b (\<lambda>b. b\<lparr>flags := flags b OR BUFFER_LOCKED\<rparr>) (disable_interrupts ?k3)))"
      have l: "\<not> is_set BUFFER_LOCKED b ?k3" using False by simp
      have p: "getblk_pass c d n k es = Finished (lock_and_return b ?k3 es)"
        using getblk_pass_hit [OF s False, of es] .
      have k': "k' = ?k7"
        using assms(5) unfolding p lock_and_return_free [OF l] by simp
      have "count_invariant c ?k3"
      proof (cases "count (mem k b) = 0")
        case True
        then show ?thesis
          using count_invariant_unlink(1) [OF inv1 x(2)] by (simp add: x(1))
      next
        case False
        have "count (mem k b) \<noteq> - 1" using cnt(1) [of b] by auto
        then show ?thesis
          using False count_invariant_reference [OF inv1, of b] by simp
      qed
      then have "count_invariant c ?k7"
        by (rule count_invariant_frame) (simp add: mem_upd)
      then show ?thesis unfolding k' by simp
    qed
  qed
qed

lemma count_invariant_getblk_repeat:
  assumes "\<forall>e\<in>set (k # es). getblk_ready c d n e \<and> count_invariant c e
             \<and> (\<exists>bs. hash_bucket (mem e) (HASH c d n) bs \<and> set bs \<subseteq> Buffers ` {..<NR_BUFFERS c})"
    and "getblk_repeat c d n k es = Return r k'"
  shows "interrupts k' \<and> count_invariant c k'"
  using assms
proof (induction es arbitrary: k)
  case Nil
  then obtain bs where k: "getblk_ready c d n k" "count_invariant c k"
    "hash_bucket (mem k) (HASH c d n) bs" "set bs \<subseteq> Buffers ` {..<NR_BUFFERS c}"
    by auto
  from Nil.prems(2) have "getblk_pass c d n k [] = Finished (Return r k')"
    by (subst (asm) getblk_repeat.simps) (auto split: pass.splits)
  then show ?case by (rule count_invariant_getblk_pass [OF k])
next
  case (Cons e es)
  then obtain bs where k: "getblk_ready c d n k" "count_invariant c k"
    "hash_bucket (mem k) (HASH c d n) bs" "set bs \<subseteq> Buffers ` {..<NR_BUFFERS c}"
    by auto
  show ?case
  proof (cases "getblk_pass c d n k (e # es)")
    case (Finished o')
    then have "getblk_pass c d n k (e # es) = Finished (Return r k')"
      using Cons.prems(2) by (subst (asm) getblk_repeat.simps) simp
    then show ?thesis by (rule count_invariant_getblk_pass [OF k])
  next
    case (Goto_repeat q k1)
    then have "getblk_repeat c d n e es = Return r k'"
      using Cons.prems(2) by (subst (asm) getblk_repeat.simps) simp
    then show ?thesis using Cons.IH [of e] Cons.prems(1) by simp
  qed
qed


text \<open>\<open>bsync\<close> keeps it between its start and its end.\<close>

lemma blklock_wait_return:
  assumes "blklock_wait buf k es = Return es' k1"
  shows "set es' \<subseteq> set es
       \<and> (\<exists>e\<in>set (k # es).
             k1 = enable_interrupts (upd buf (\<lambda>b. b\<lparr>flags := flags b OR BUFFER_LOCKED\<rparr>) e))"
  using assms
proof (induction es arbitrary: k)
  case Nil
  then show ?case by (auto split: if_splits)
next
  case (Cons e es)
  show ?case
  proof (cases "is_set BUFFER_LOCKED buf k")
    case True
    then have "blklock_wait buf e es = Return es' k1" using Cons.prems by simp
    from Cons.IH [OF this] show ?thesis by auto
  next
    case False
    then show ?thesis using Cons.prems by auto
  qed
qed

lemma bsync_buffer_return:
  assumes "bsync_buffer buf k es = Return es' k'"
  shows "set es' \<subseteq> set es
       \<and> (\<exists>e\<in>set (disable_interrupts k # es).
            k' = (let k1 = enable_interrupts
                             (upd buf (\<lambda>b. b\<lparr>flags := flags b OR BUFFER_LOCKED\<rparr>) e)
                  in if \<not> is_set BUFFER_VALID buf k1 then blkunlock buf k1
                     else bdev_writeblk buf
                            (if count (mem k1 buf) = 0
                             then free_remove buf (take_reference buf k1)
                             else take_reference buf k1)))"
proof -
  obtain k1 where b: "blklock_wait buf (disable_interrupts k) es = Return es' k1"
    and k': "k' = (if \<not> is_set BUFFER_VALID buf k1 then blkunlock buf k1
                   else bdev_writeblk buf
                          (if count (mem k1 buf) = 0
                           then free_remove buf (take_reference buf k1)
                           else take_reference buf k1))"
    using assms
    by (auto simp: bsync_buffer_def blklock_def Let_def split: outcome.splits if_splits)
  from blklock_wait_return [OF b] show ?thesis
    unfolding k' Let_def by blast
qed

lemma bdev_writeblk_links [simp]:
  "count (mem (bdev_writeblk buf k) p) = count (mem k p)"
  "free_next (mem (bdev_writeblk buf k) p) = free_next (mem k p)"
  "free_prev (mem (bdev_writeblk buf k) p) = free_prev (mem k p)"
  "interrupts (bdev_writeblk buf k) = interrupts k"
  by (simp_all add: bdev_writeblk_def)

lemma count_invariant_bsync_buffer:
  assumes "\<forall>e\<in>set (k # es). count_invariant c e \<and> count (mem e (Buffers i)) \<noteq> - 1"
    and "i < NR_BUFFERS c"
    and "bsync_buffer (Buffers i) k es = Return es' k'"
  shows "interrupts k' \<and> count_invariant c k' \<and> set es' \<subseteq> set es
       \<and> (\<exists>e\<in>set (k # es). \<forall>p. p \<noteq> Buffers i \<longrightarrow> count (mem k' p) = count (mem e p))"
proof -
  let ?b = "Buffers i"
  obtain e where e: "e \<in> set (disable_interrupts k # es)" and sub: "set es' \<subseteq> set es"
    and k': "k' = (let k1 = enable_interrupts
                             (upd ?b (\<lambda>b. b\<lparr>flags := flags b OR BUFFER_LOCKED\<rparr>) e)
                  in if \<not> is_set BUFFER_VALID ?b k1 then blkunlock ?b k1
                     else bdev_writeblk ?b
                            (if count (mem k1 ?b) = 0
                             then free_remove ?b (take_reference ?b k1)
                             else take_reference ?b k1))"
    using bsync_buffer_return [OF assms(3)] by blast
  let ?k1 = "enable_interrupts (upd ?b (\<lambda>b. b\<lparr>flags := flags b OR BUFFER_LOCKED\<rparr>) e)"
  have "count_invariant c (disable_interrupts k)"
    using assms(1) by (auto intro: count_invariant_frame)
  then have ie: "count_invariant c e" "count (mem e ?b) \<noteq> - 1"
    using e assms(1) by auto
  have i1: "count_invariant c ?k1"
    using ie(1) by (rule count_invariant_frame) (simp add: mem_upd)
  have c1: "count (mem ?k1 p) = count (mem e p)" for p by (simp add: mem_upd)
  have oth: "\<exists>e'\<in>set (k # es). \<forall>p. count (mem e p) = count (mem e' p)"
    using e by auto
  show ?thesis
  proof (cases "is_set BUFFER_VALID ?b ?k1")
    case False
    then have k'': "k' = blkunlock ?b ?k1" unfolding k' Let_def by simp
    have "count_invariant c k'"
      unfolding k'' using i1 by (rule count_invariant_frame) simp
    moreover have "count (mem k' p) = count (mem e p)" for p
      unfolding k'' by (simp add: mem_upd)
    ultimately show ?thesis using sub oth by (auto simp: k'')
  next
    case True
    let ?k3 = "if count (mem ?k1 ?b) = 0
               then free_remove ?b (take_reference ?b ?k1) else take_reference ?b ?k1"
    have k'': "k' = bdev_writeblk ?b ?k3" using True unfolding k' Let_def by simp
    have "count_invariant c ?k3"
    proof (cases "count (mem ?k1 ?b) = 0")
      case True
      then show ?thesis
        using count_invariant_unlink(1) [OF i1 assms(2)] by simp
    next
      case False
      then have "count (mem ?k1 ?b) \<noteq> 0" "count (mem ?k1 ?b) \<noteq> - 1"
        using ie(2) by (simp_all add: mem_upd)
      from count_invariant_reference [OF i1 this] False show ?thesis
        by (simp only: if_False)
    qed
    then have "count_invariant c k'"
      unfolding k'' by (rule count_invariant_frame) simp
    moreover have "p \<noteq> ?b \<Longrightarrow> count (mem k' p) = count (mem e p)" for p
      unfolding k'' by (simp add: mem_upd)
    moreover have "interrupts k'" unfolding k'' by simp
    ultimately show ?thesis using sub oth by auto
  qed
qed

lemma count_invariant_bsync_loop:
  assumes "distinct js" "set js \<subseteq> {..<NR_BUFFERS c}"
    and "\<forall>e\<in>set (k # es). count_invariant c e \<and> (\<forall>j\<in>set js. count (mem e (Buffers j)) \<noteq> - 1)"
    and "bsync_loop js k es = Return es' k'"
  shows "count_invariant c k'"
  using assms
proof (induction js arbitrary: k es)
  case Nil
  then show ?case by simp
next
  case (Cons i js)
  obtain es1 k1 where b: "bsync_buffer (Buffers i) k es = Return es1 k1"
    and l: "bsync_loop js k1 es1 = Return es' k'"
    using Cons.prems(4) by (auto split: outcome.splits)
  have a: "\<forall>e\<in>set (k # es). count_invariant c e \<and> count (mem e (Buffers i)) \<noteq> - 1"
    using Cons.prems(3) by simp
  have i: "i < NR_BUFFERS c" using Cons.prems(2) by simp
  from count_invariant_bsync_buffer [OF a i b]
  obtain e where e: "count_invariant c k1" "set es1 \<subseteq> set es" "e \<in> set (k # es)"
    "\<forall>p. p \<noteq> Buffers i \<longrightarrow> count (mem k1 p) = count (mem e p)"
    by blast
  have "\<forall>j\<in>set js. count (mem k1 (Buffers j)) \<noteq> - 1"
  proof
    fix j assume j: "j \<in> set js"
    then have "j \<noteq> i" using Cons.prems(1) by auto
    then have "count (mem k1 (Buffers j)) = count (mem e (Buffers j))" using e(4) by simp
    then show "count (mem k1 (Buffers j)) \<noteq> - 1"
      using Cons.prems(3) e(3) j by auto
  qed
  then have "\<forall>e\<in>set (k1 # es1).
      count_invariant c e \<and> (\<forall>j\<in>set js. count (mem e (Buffers j)) \<noteq> - 1)"
    using e(1,2) Cons.prems(3) by auto
  from Cons.IH [OF _ _ this l] show ?case using Cons.prems(1,2) by simp
qed

lemma count_invariant_bsync:
  assumes "\<forall>e\<in>set (k # es). count_invariant c e
             \<and> (\<forall>j<NR_BUFFERS c. count (mem e (Buffers j)) \<noteq> - 1)"
    and "bsync c k es = Return es' k'"
  shows "count_invariant c k'"
proof (rule count_invariant_bsync_loop [OF _ _ _ assms(2) [unfolded bsync_def]])
  show "distinct [0 ..< NR_BUFFERS c]" by simp
  show "set [0 ..< NR_BUFFERS c] \<subseteq> {..<NR_BUFFERS c}" by auto
  show "\<forall>e\<in>set (k # es). count_invariant c e
          \<and> (\<forall>j\<in>set [0 ..< NR_BUFFERS c]. count (mem e (Buffers j)) \<noteq> - 1)"
    using assms(1) by simp
qed

text \<open>Inside \<open>bsync\<close> it is broken on every valid buffer of the free list: after \<open>blklock\<close>
  the interrupts are enabled, and the count is incremented before the buffer is unlinked.\<close>

lemma count_invariant_bsync_window:
  assumes "count_invariant c k" "i < NR_BUFFERS c" "count (mem k (Buffers i)) = 0"
    and "\<not> is_set BUFFER_LOCKED (Buffers i) k"
  shows "\<exists>k1. blklock (Buffers i) k es = Return es k1
            \<and> interrupts (take_reference (Buffers i) k1)
            \<and> \<not> count_invariant c (take_reference (Buffers i) k1)"
proof -
  let ?k1 = "enable_interrupts (upd (Buffers i) (\<lambda>b. b\<lparr>flags := flags b OR BUFFER_LOCKED\<rparr>)
               (disable_interrupts k))"
  have "count_invariant c ?k1"
    using assms(1) by (rule count_invariant_frame) (simp add: mem_upd)
  then have "\<not> count_invariant c (take_reference (Buffers i) ?k1)"
    using assms(2) by (rule count_invariant_window) (simp add: mem_upd assms(3))
  then show ?thesis
    unfolding blklock_free [OF assms(4)] by simp
qed

lemma count_invariant_released_cache: "count_invariant small_config released_cache"
  using released_cache_free_list
  by (rule count_invariantI) (auto simp: count_released_cache small_config_def)


section \<open>The claims about the scheduler\<close>

lemma next_process_tick0: "ticks k = 0 \<Longrightarrow> next_process k 40 = 1"
  by (simp add: next_process_def rand_def CURRENT_TIME_def c_sdiv_def)

lemma procs_two: "FIRST_PROC c = p1 \<Longrightarrow> LAST_PROC c = Suc p1 \<Longrightarrow> procs c = [p1, Suc p1]"
  by (simp add: procs_def upt_rec)

lemma resched_other:
  "p \<noteq> curr_proc k \<Longrightarrow>
   proctab (if state (proctab k (curr_proc k)) = PROC_RUNNING
                then sched_at (curr_proc k) (add_compensation c f k) else k) p = proctab k p"
  by (simp add: sched_at_def add_compensation_def Let_def)

lemma resched_ticks:
  "ticks (if state (proctab k (curr_proc k)) = PROC_RUNNING
                then sched_at (curr_proc k) (add_compensation c f k) else k) = ticks k"
  by (simp add: sched_at_def add_compensation_def Let_def)

text \<open>
  Claim C9. \<open>rand\<close> depends on the tick counter alone: it is
  ((ticks * 1103515245 + 12345) / 65536) mod 32768, so two calls at the same tick return
  the same number. The draw is (rand() * total_tickets / 32768) + 1 (for a total of at most
  65536 tickets the product does not overflow). At tick 0 with 40 tickets the winning ticket
  is 1, and of two ready processes with 10 and 30 tickets, in this table order, the first
  one is picked and runs after \<open>yield\<close>.
\<close>

theorem rand_and_lottery_draw:
  "unat (rand k) = (unat (ticks k) * 1103515245 + 12345) div 65536 mod 32768
   \<and> (ticks k' = ticks k \<longrightarrow> rand k' = rand k)
   \<and> (0 \<le> sint t \<and> sint t \<le> 65536 \<longrightarrow>
        sint (next_process k t) = sint (rand k) * sint t div 32768 + 1)
   \<and> (ticks k = 0 \<longrightarrow> next_process k 40 = 1)
   \<and> (ticks k = 0 \<and> FIRST_PROC c = p1 \<and> LAST_PROC c = Suc p1
        \<and> state (proctab k p1) = PROC_READY \<and> tickets (proctab k p1) = 10
        \<and> compensation (proctab k p1) = 0
        \<and> state (proctab k (Suc p1)) = PROC_READY \<and> tickets (proctab k (Suc p1)) = 30
        \<and> compensation (proctab k (Suc p1)) = 0
        \<and> curr_proc k \<noteq> p1 \<and> curr_proc k \<noteq> Suc p1 \<longrightarrow>
        fst (count_tickets c (procs c) 0 k) = 40 \<and> yield_next c 40 k = p1
        \<and> curr_proc (yield c f k) = p1)"
proof (intro conjI impI)
  show "unat (rand k) = (unat (ticks k) * 1103515245 + 12345) div 65536 mod 32768"
    by (rule unat_rand)
  show "rand k' = rand k" if "ticks k' = ticks k"
    using that by (simp add: rand_def CURRENT_TIME_def)
  show "sint (next_process k t) = sint (rand k) * sint t div 32768 + 1"
    if "0 \<le> sint t \<and> sint t \<le> 65536"
    using that by (simp add: sint_next_process sint_rand)
  show "next_process k 40 = 1" if "ticks k = 0"
    using that by (rule next_process_tick0)
next
  assume a: "ticks k = 0 \<and> FIRST_PROC c = p1 \<and> LAST_PROC c = Suc p1
        \<and> state (proctab k p1) = PROC_READY \<and> tickets (proctab k p1) = 10
        \<and> compensation (proctab k p1) = 0
        \<and> state (proctab k (Suc p1)) = PROC_READY \<and> tickets (proctab k (Suc p1)) = 30
        \<and> compensation (proctab k (Suc p1)) = 0
        \<and> curr_proc k \<noteq> p1 \<and> curr_proc k \<noteq> Suc p1"
  have ps: "procs c = [p1, Suc p1]" using a by (simp add: procs_two)
  have "ready_tickets (proctab k) (procs c) = 40"
    using a by (simp add: ps ready_tickets_def)
  then show "fst (count_tickets c (procs c) 0 k) = 40"
    by (simp only: count_tickets_total) simp
  have w: "yield_next c 40 k1 = p1"
    if "ticks k1 = 0" "proctab k1 p1 = proctab k p1" for k1
    using that a by (simp add: yield_next_def ps next_process_tick0 Let_def word_sless_alt)
  show "yield_next c 40 k = p1" using a by (simp add: w)
  define k1 where "k1 = (if state (proctab k (curr_proc k)) = PROC_RUNNING
                then sched_at (curr_proc k) (add_compensation c f k) else k)"
  have o: "proctab k1 p1 = proctab k p1" "proctab k1 (Suc p1) = proctab k (Suc p1)"
    using a by (simp_all add: k1_def resched_other)
  have t: "ticks k1 = 0" using a by (simp add: k1_def resched_ticks)
  have "ready_tickets (proctab k1) (procs c) = 40"
    using a by (simp add: ps ready_tickets_def o)
  moreover have "curr_proc (yield c f k) = yield_next c (ready_tickets (proctab k1) (procs c)) k1"
    by (simp only: yield_curr_proc Let_def k1_def)
  ultimately show "curr_proc (yield c f k) = p1"
    using w [of k1] t o by simp
qed

text \<open>The lottery scenario of the spec, in the small configuration.\<close>

theorem rand_and_lottery_draw_witness:
  "ticks (lottery_kernel 0) = ticks (lottery_kernel 0)
   \<and> 0 \<le> sint (40 :: cint) \<and> sint (40 :: cint) \<le> 65536
   \<and> ticks (lottery_kernel 0) = 0 \<and> FIRST_PROC small_config = 1 \<and> LAST_PROC small_config = Suc 1
   \<and> state (proctab (lottery_kernel 0) 1) = PROC_READY
   \<and> tickets (proctab (lottery_kernel 0) 1) = 10
   \<and> compensation (proctab (lottery_kernel 0) 1) = 0
   \<and> state (proctab (lottery_kernel 0) (Suc 1)) = PROC_READY
   \<and> tickets (proctab (lottery_kernel 0) (Suc 1)) = 30
   \<and> compensation (proctab (lottery_kernel 0) (Suc 1)) = 0
   \<and> curr_proc (lottery_kernel 0) \<noteq> 1 \<and> curr_proc (lottery_kernel 0) \<noteq> Suc 1
   \<and> unat (rand (lottery_kernel 0)) = 0
   \<and> sint (next_process (lottery_kernel 0) 40) = 1
   \<and> fst (count_tickets small_config (procs small_config) 0 (lottery_kernel 0)) = 40
   \<and> yield_next small_config 40 (lottery_kernel 0) = 1
   \<and> curr_proc (yield small_config (\<lambda>q c t. 0) (lottery_kernel 0)) = 1"
  using rand_and_lottery_draw [of "lottery_kernel 0" "lottery_kernel 0" 40 small_config 1 "\<lambda>q c t. 0"]
  by (simp add: lottery_kernel_def small_config_def ready_process_def)

text \<open>
  Claim C1. Whenever \<open>total_tickets\<close> is positive a ready process should be chosen. The code
  does not do so: the winning ticket ranges over 1 .. \<open>total_tickets\<close> and the loop asks for
  a running sum strictly above it, so no process holds the last ticket. At tick 35 the two
  ready processes of the scenario have 40 tickets, the winning ticket is 40, and \<open>IDLE\<close>
  is chosen and runs.
\<close>

theorem yield_last_ticket_runs_idle:
  "fst (count_tickets small_config (procs small_config) 0 (lottery_kernel 35)) = 40
   \<and> next_process (lottery_kernel 35) 40 = 40
   \<and> yield_next small_config 40 (lottery_kernel 35) = IDLE small_config
   \<and> curr_proc (yield small_config f (lottery_kernel 35)) = IDLE small_config
   \<and> state (proctab (lottery_kernel 35) 1) = PROC_READY
   \<and> state (proctab (lottery_kernel 35) 2) = PROC_READY"
proof -
  have t: "next_process (lottery_kernel 35) 40 = 40"
    by (simp add: next_process_def rand_def CURRENT_TIME_def c_sdiv_def lottery_kernel_def)
  have r: "ready_tickets (proctab (lottery_kernel 35)) (procs small_config) = 40"
    by (simp add: ready_tickets_def procs_def small_config_def lottery_kernel_def
        ready_process_def upt_rec)
  have c: "fst (count_tickets small_config (procs small_config) 0 (lottery_kernel 35)) = 40"
    by (simp only: count_tickets_total r) simp
  have w: "yield_next small_config 40 (lottery_kernel 35) = IDLE small_config"
    unfolding yield_next_def t
    by (simp add: procs_def small_config_def lottery_kernel_def ready_process_def upt_rec
        Let_def)
  have y: "curr_proc (yield small_config f (lottery_kernel 35)) = IDLE small_config"
    unfolding yield_curr_proc
    by (simp add: yield_next_def next_process_def rand_def CURRENT_TIME_def c_sdiv_def
      ready_tickets_def procs_def small_config_def lottery_kernel_def ready_process_def upt_rec
        Let_def sched_at_def add_compensation_def sched_def)
  show ?thesis using t c w y by (simp add: lottery_kernel_def ready_process_def)
qed


text \<open>The compensation scenario of the spec in the small configuration.\<close>

lemma add_compensation_stores:
  assumes "0 < sint (counter (proctab k (curr_proc k)))"
    and "counter (proctab k (curr_proc k)) \<noteq> PROC_QUANTUM c"
  shows "add_compensation c f k =
     k\<lparr>proctab := (proctab k)(curr_proc k := (proctab k (curr_proc k))
          \<lparr>compensation := f (PROC_QUANTUM c) (counter (proctab k (curr_proc k)))
                               (tickets (proctab k (curr_proc k)))\<rparr>)\<rparr>"
  using assms by (simp add: add_compensation_def Let_def word_sless_alt)

lemma cint_of_sint: "sint (x :: cint) = i \<Longrightarrow> x = word_of_int i"
  by auto

lemma float_compensation_100_75_10: "float_compensation 100 75 10 = 30"
proof -
  have "sint (float_compensation 100 75 10 :: cint)
          = exact_compensation (sint (100 :: cint)) (sint (75 :: cint)) (sint (10 :: cint))"
    by (rule float_compensation_power_of_two [where j = 2]) simp_all
  also have "\<dots> = 30" by (simp add: exact_compensation_div)
  finally show ?thesis by (auto dest: cint_of_sint)
qed

lemma yielding_kernel_75_10:
  "add_compensation small_config float_compensation (yielding_kernel 75 10)
     = (yielding_kernel 75 10)\<lparr>proctab := (proctab (yielding_kernel 75 10))
          (1 := (proctab (yielding_kernel 75 10) 1)\<lparr>compensation := 30\<rparr>)\<rparr>"
proof -
  have "add_compensation small_config float_compensation (yielding_kernel 75 10)
     = (yielding_kernel 75 10)\<lparr>proctab := (proctab (yielding_kernel 75 10))
          (curr_proc (yielding_kernel 75 10) :=
             (proctab (yielding_kernel 75 10) (curr_proc (yielding_kernel 75 10)))
               \<lparr>compensation := float_compensation (PROC_QUANTUM small_config)
                  (counter (proctab (yielding_kernel 75 10) (curr_proc (yielding_kernel 75 10))))
                  (tickets (proctab (yielding_kernel 75 10) (curr_proc (yielding_kernel 75 10))))\<rparr>)\<rparr>"
    by (rule add_compensation_stores) (simp_all add: yielding_kernel_def small_config_def)
  also have "curr_proc (yielding_kernel 75 10) = 1" by (simp add: yielding_kernel_def)
  also have "PROC_QUANTUM small_config = 100" by (simp add: small_config_def)
  also have "counter (proctab (yielding_kernel 75 10) 1) = 75"
    by (simp add: yielding_kernel_def)
  also have "tickets (proctab (yielding_kernel 75 10) 1) = 10"
    by (simp add: yielding_kernel_def ready_process_def)
  also note float_compensation_100_75_10
  finally show ?thesis .
qed

lemma procs_small: "procs small_config = [1, 2]"
  by (simp add: procs_def small_config_def numeral_3_eq_3 numeral_2_eq_2 upt_rec)

lemma yielding_kernel_lottery:
  "state (proctab (sched_at 1 (add_compensation small_config float_compensation
            (yielding_kernel 75 10))) 1) = PROC_READY"
  "tickets (proctab (sched_at 1 (add_compensation small_config float_compensation
            (yielding_kernel 75 10))) 1)
   + compensation (proctab (sched_at 1 (add_compensation small_config float_compensation
            (yielding_kernel 75 10))) 1) = 40"
  "fst (count_tickets small_config (procs small_config) 0
          ((sched_at 1 (add_compensation small_config float_compensation
               (yielding_kernel 75 10)))\<lparr>last_proc := 1\<rparr>)) = 40"
  unfolding yielding_kernel_75_10 procs_small
  by (simp_all add: yielding_kernel_def sched_at_def sched_def ready_process_def
      small_config_def)

text \<open>
  Claim C6, as the code has it. With a counter of 0 or of \<open>PROC_QUANTUM\<close>, \<open>add_compensation\<close>
  changes nothing. With a counter between them, tickets \<open>t \<ge> 0\<close> and \<open>t * PROC_QUANTUM\<close>
  below \<open>2 ^ 22\<close>, it sets the compensation of the current process to the value that the two
  single-precision divisions give: this is \<open>tickets / fraction - tickets\<close> truncated, as in
  exact arithmetic, or one less than that when \<open>t * PROC_QUANTUM\<close> is a multiple of the used
  part of the quantum; it is the exact value when the used part is \<open>1 / 2 ^ j\<close> of the quantum.
  In the scenario of the spec, a quantum of 100, a counter of 75 and 10 tickets, the
  compensation is 30, and when \<open>yield\<close> then counts the tickets the process is ready with
  \<open>10 + 30 = 40\<close> of them.
\<close>

theorem add_compensation_float:
  "(counter (proctab k (curr_proc k)) = 0
      \<or> counter (proctab k (curr_proc k)) = PROC_QUANTUM c
     \<longrightarrow> add_compensation c float_compensation k = k)
   \<and> (p = proctab k (curr_proc k) \<and> q = sint (PROC_QUANTUM c)
       \<and> cnt = sint (counter p) \<and> t = sint (tickets p)
       \<and> 0 < cnt \<and> cnt < q \<and> 0 \<le> t \<and> t * q < 4194304
     \<longrightarrow> (\<exists>x. add_compensation c float_compensation k
                  = k\<lparr>proctab := (proctab k)(curr_proc k := p\<lparr>compensation := x\<rparr>)\<rparr>
              \<and> (sint x = exact_compensation q cnt t
                 \<or> ((q - cnt) dvd t * q \<and> sint x = exact_compensation q cnt t - 1))
              \<and> ((\<exists>j. q = (q - cnt) * 2 ^ j) \<longrightarrow> sint x = exact_compensation q cnt t)))
   \<and> compensation (proctab (add_compensation small_config float_compensation
                      (yielding_kernel 75 10)) 1) = 30
   \<and> state (proctab (sched_at 1 (add_compensation small_config float_compensation
                      (yielding_kernel 75 10))) 1) = PROC_READY
   \<and> tickets (proctab (sched_at 1 (add_compensation small_config float_compensation
                      (yielding_kernel 75 10))) 1)
     + compensation (proctab (sched_at 1 (add_compensation small_config float_compensation
                      (yielding_kernel 75 10))) 1) = 40
   \<and> fst (count_tickets small_config (procs small_config) 0
            ((sched_at 1 (add_compensation small_config float_compensation
                 (yielding_kernel 75 10)))\<lparr>last_proc := 1\<rparr>)) = 40"
proof (intro conjI impI)
  assume "counter (proctab k (curr_proc k)) = 0
      \<or> counter (proctab k (curr_proc k)) = PROC_QUANTUM c"
  then show "add_compensation c float_compensation k = k"
    by (rule add_compensation_none)
next
  assume a: "p = proctab k (curr_proc k) \<and> q = sint (PROC_QUANTUM c)
       \<and> cnt = sint (counter p) \<and> t = sint (tickets p)
       \<and> 0 < cnt \<and> cnt < q \<and> 0 \<le> t \<and> t * q < 4194304"
  let ?x = "float_compensation (PROC_QUANTUM c) (counter p) (tickets p)"
  have c: "0 < sint (counter p)" "sint (counter p) < sint (PROC_QUANTUM c)"
    and t: "0 \<le> sint (tickets p)" and m: "sint (tickets p) * sint (PROC_QUANTUM c) < 4194304"
    using a by auto
  have ne: "counter p \<noteq> PROC_QUANTUM c" using c(2) by auto
  have "add_compensation c float_compensation k
          = k\<lparr>proctab := (proctab k)(curr_proc k := p\<lparr>compensation := ?x\<rparr>)\<rparr>"
    using add_compensation_stores [of k c float_compensation] c(1) ne a by simp
  moreover have "sint ?x = exact_compensation q cnt t
                 \<or> ((q - cnt) dvd t * q \<and> sint ?x = exact_compensation q cnt t - 1)"
    using float_compensation_bound [OF c t m] a by simp
  moreover have "(\<exists>j. q = (q - cnt) * 2 ^ j) \<longrightarrow> sint ?x = exact_compensation q cnt t"
  proof
    assume "\<exists>j. q = (q - cnt) * 2 ^ j"
    then obtain j where "sint (PROC_QUANTUM c) = (sint (PROC_QUANTUM c) - sint (counter p)) * 2 ^ j"
      using a by auto
    from float_compensation_power_of_two [OF c t m this]
    show "sint ?x = exact_compensation q cnt t" using a by simp
  qed
  ultimately show "\<exists>x. add_compensation c float_compensation k
                  = k\<lparr>proctab := (proctab k)(curr_proc k := p\<lparr>compensation := x\<rparr>)\<rparr>
              \<and> (sint x = exact_compensation q cnt t
                 \<or> ((q - cnt) dvd t * q \<and> sint x = exact_compensation q cnt t - 1))
              \<and> ((\<exists>j. q = (q - cnt) * 2 ^ j) \<longrightarrow> sint x = exact_compensation q cnt t)"
    by blast
next
  show "compensation (proctab (add_compensation small_config float_compensation
                      (yielding_kernel 75 10)) 1) = 30"
    unfolding yielding_kernel_75_10 by simp
qed (rule yielding_kernel_lottery)+

text \<open>
  Counters of 0 and of 100 leave the kernel as it is; counter 75, where the used part is a
  quarter; counter 30, where 1000 is no multiple of 70.
\<close>

theorem add_compensation_float_witness:
  "add_compensation small_config float_compensation (yielding_kernel 0 10) = yielding_kernel 0 10
   \<and> add_compensation small_config float_compensation (yielding_kernel 100 10)
       = yielding_kernel 100 10
   \<and> (100 :: int) = (100 - 75) * 2 ^ 2
   \<and> exact_compensation 100 75 10 = 30
   \<and> sint (compensation (proctab (add_compensation small_config float_compensation
                             (yielding_kernel 75 10)) 1)) = 30
   \<and> (10 * 100 :: int) mod (100 - 30) = 20
   \<and> exact_compensation 100 30 10 = 4
   \<and> sint (compensation (proctab (add_compensation small_config float_compensation
                             (yielding_kernel 30 10)) 1)) = 4"
proof -
  have q: "sint (PROC_QUANTUM small_config) = 100" by (simp add: small_config_def)
  have k: "curr_proc (yielding_kernel cnt t) = 1"
    "sint (counter (proctab (yielding_kernel cnt t) 1)) = sint cnt"
    "sint (tickets (proctab (yielding_kernel cnt t) 1)) = sint t"
    "counter (proctab (yielding_kernel cnt t) (curr_proc (yielding_kernel cnt t))) = cnt"
    for cnt t
    by (simp_all add: yielding_kernel_def ready_process_def)
  have g0: "add_compensation small_config float_compensation (yielding_kernel 0 10)
              = yielding_kernel 0 10"
    using add_compensation_float [of "yielding_kernel 0 10" small_config] k(4) [of 0 10]
    by simp
  have g1: "add_compensation small_config float_compensation (yielding_kernel 100 10)
              = yielding_kernel 100 10"
    using add_compensation_float [of "yielding_kernel 100 10" small_config] k(4) [of 100 10]
    by (simp add: small_config_def)
  have e1: "exact_compensation 100 75 10 = 30" "exact_compensation 100 30 10 = 4"
    by (simp_all add: exact_compensation_div)
  have p2: "(100 :: int) = (100 - 75) * 2 ^ 2" by simp
  have h1: "proctab (yielding_kernel 75 10) 1 = proctab (yielding_kernel 75 10) (curr_proc (yielding_kernel 75 10))
       \<and> (100 :: int) = sint (PROC_QUANTUM small_config)
       \<and> (75 :: int) = sint (counter (proctab (yielding_kernel 75 10) 1))
       \<and> (10 :: int) = sint (tickets (proctab (yielding_kernel 75 10) 1))
       \<and> (0 :: int) < 75 \<and> (75 :: int) < 100 \<and> (0 :: int) \<le> 10 \<and> (10 * 100 :: int) < 4194304"
    by (simp add: q yielding_kernel_def ready_process_def)
  from add_compensation_float [of "yielding_kernel 75 10" small_config
      "proctab (yielding_kernel 75 10) 1" 100 75 10] h1
  obtain x where x: "add_compensation small_config float_compensation (yielding_kernel 75 10)
      = (yielding_kernel 75 10)\<lparr>proctab := (proctab (yielding_kernel 75 10))
           (curr_proc (yielding_kernel 75 10) := (proctab (yielding_kernel 75 10) 1)\<lparr>compensation := x\<rparr>)\<rparr>"
    "(\<exists>j. (100 :: int) = (100 - 75) * 2 ^ j) \<longrightarrow> sint x = exact_compensation 100 75 10"
    by blast
  have "\<exists>j. (100 :: int) = (100 - 75) * 2 ^ j" using p2 by (rule exI)
  then have "sint x = 30" using x(2) e1(1) by simp
  then have r1: "sint (compensation (proctab (add_compensation small_config float_compensation
                             (yielding_kernel 75 10)) 1)) = 30"
    unfolding x(1) by (simp add: k)
  have h2: "proctab (yielding_kernel 30 10) 1 = proctab (yielding_kernel 30 10) (curr_proc (yielding_kernel 30 10))
       \<and> (100 :: int) = sint (PROC_QUANTUM small_config)
       \<and> (30 :: int) = sint (counter (proctab (yielding_kernel 30 10) 1))
       \<and> (10 :: int) = sint (tickets (proctab (yielding_kernel 30 10) 1))
       \<and> (0 :: int) < 30 \<and> (30 :: int) < 100 \<and> (0 :: int) \<le> 10 \<and> (10 * 100 :: int) < 4194304"
    by (simp add: q yielding_kernel_def ready_process_def)
  from add_compensation_float [of "yielding_kernel 30 10" small_config
      "proctab (yielding_kernel 30 10) 1" 100 30 10] h2
  obtain y where y: "add_compensation small_config float_compensation (yielding_kernel 30 10)
      = (yielding_kernel 30 10)\<lparr>proctab := (proctab (yielding_kernel 30 10))
           (curr_proc (yielding_kernel 30 10) := (proctab (yielding_kernel 30 10) 1)\<lparr>compensation := y\<rparr>)\<rparr>"
    "sint y = exact_compensation 100 30 10
       \<or> (((100 :: int) - 30) dvd 10 * 100 \<and> sint y = exact_compensation 100 30 10 - 1)"
    by blast
  have "\<not> ((100 :: int) - 30) dvd 10 * 100" by simp
  then have "sint y = 4" using y(2) e1(2) by simp
  then have r2: "sint (compensation (proctab (add_compensation small_config float_compensation
                             (yielding_kernel 30 10)) 1)) = 4"
    unfolding y(1) by (simp add: k)
  have md: "(10 * 100 :: int) mod (100 - 30) = 20" by simp
  show ?thesis
    using g0 g1 p2 e1 r1 md r2 by (intro conjI)
qed

text \<open>
  A quantum of 100, a counter of 28 and 18 tickets: \<open>18 / 0.72\<close> is 25 and the spec's
  compensation is 7, but the process gets 6.
\<close>

theorem add_compensation_rounds_down:
  "PROC_QUANTUM small_config = 100
   \<and> curr_proc (yielding_kernel 28 18) = 1
   \<and> state (proctab (yielding_kernel 28 18) 1) = PROC_RUNNING
   \<and> counter (proctab (yielding_kernel 28 18) 1) = 28
   \<and> tickets (proctab (yielding_kernel 28 18) 1) = 18
   \<and> compensation (proctab (add_compensation small_config float_compensation
                      (yielding_kernel 28 18)) 1) = 6
   \<and> exact_compensation 100 28 18 = 7"
proof -
  have "add_compensation small_config float_compensation (yielding_kernel 28 18)
     = (yielding_kernel 28 18)\<lparr>proctab := (proctab (yielding_kernel 28 18))
          (curr_proc (yielding_kernel 28 18) :=
             (proctab (yielding_kernel 28 18) (curr_proc (yielding_kernel 28 18)))
               \<lparr>compensation := float_compensation (PROC_QUANTUM small_config)
                  (counter (proctab (yielding_kernel 28 18) (curr_proc (yielding_kernel 28 18))))
                  (tickets (proctab (yielding_kernel 28 18) (curr_proc (yielding_kernel 28 18))))\<rparr>)\<rparr>"
    by (rule add_compensation_stores) (simp_all add: yielding_kernel_def small_config_def)
  also have "curr_proc (yielding_kernel 28 18) = 1" by (simp add: yielding_kernel_def)
  also have "PROC_QUANTUM small_config = 100" by (simp add: small_config_def)
  also have "counter (proctab (yielding_kernel 28 18) 1) = 28"
    by (simp add: yielding_kernel_def)
  also have "tickets (proctab (yielding_kernel 28 18) 1) = 18"
    by (simp add: yielding_kernel_def ready_process_def)
  also note float_compensation_100_28_18
  finally have "compensation (proctab (add_compensation small_config float_compensation
                      (yielding_kernel 28 18)) 1) = 6"
    by simp
  then show ?thesis
    by (simp add: exact_compensation_100_28_18)
      (simp add: yielding_kernel_def small_config_def ready_process_def)
qed


section \<open>The claims about the buffer cache\<close>

text \<open>
  Claim C7. After \<open>binit\<close> every buffer has none of the four flags set, device and block
  number 0, no reference, its data at \<open>BUFFERS_VIRT + i * BLOCK_SIZE\<close>, and hash pointers
  that point to itself; the free list holds all the buffers in index order.
\<close>

theorem binit_initial_state:
  assumes "0 < NR_BUFFERS c"
  shows "(\<forall>i<NR_BUFFERS c.
            dev (mem (binit c k) (Buffers i)) = 0
          \<and> num (mem (binit c k) (Buffers i)) = 0
          \<and> count (mem (binit c k) (Buffers i)) = 0
          \<and> data (mem (binit c k) (Buffers i)) = BUFFERS_VIRT c + of_nat i * BLOCK_SIZE c
          \<and> \<not> is_set BUFFER_VALID (Buffers i) (binit c k)
          \<and> \<not> is_set BUFFER_BUSY (Buffers i) (binit c k)
          \<and> \<not> is_set BUFFER_LOCKED (Buffers i) (binit c k)
          \<and> \<not> is_set BUFFER_DIRTY (Buffers i) (binit c k)
          \<and> hash_next (mem (binit c k) (Buffers i)) = Buffers i
          \<and> hash_prev (mem (binit c k) (Buffers i)) = Buffers i)
       \<and> free_list (mem (binit c k)) [0 ..< NR_BUFFERS c]"
proof (intro conjI allI impI)
  fix i assume i: "i < NR_BUFFERS c"
  then have m: "mem (binit c k) (Buffers i) = init_buffer c i (mem k (Buffers i))"
    by (simp add: mem_binit)
  show "dev (mem (binit c k) (Buffers i)) = 0" "num (mem (binit c k) (Buffers i)) = 0"
    "count (mem (binit c k) (Buffers i)) = 0"
    "data (mem (binit c k) (Buffers i)) = BUFFERS_VIRT c + of_nat i * BLOCK_SIZE c"
    "hash_next (mem (binit c k) (Buffers i)) = Buffers i"
    "hash_prev (mem (binit c k) (Buffers i)) = Buffers i"
    by (simp_all add: m init_buffer_def)
  show "\<not> is_set BUFFER_VALID (Buffers i) (binit c k)"
    "\<not> is_set BUFFER_BUSY (Buffers i) (binit c k)"
    "\<not> is_set BUFFER_LOCKED (Buffers i) (binit c k)"
    "\<not> is_set BUFFER_DIRTY (Buffers i) (binit c k)"
    by (simp_all add: is_set_def m init_buffer_flags)
next
  have "free_seg (mem (binit c k)) Free_buffers (Buffers 0) [0 ..< NR_BUFFERS c]"
    using free_seg_binit [of 0 c k] assms by simp
  moreover have "free_next (mem (binit c k) Free_buffers) = Buffers 0"
    by (simp add: mem_binit)
  ultimately show "free_list (mem (binit c k)) [0 ..< NR_BUFFERS c]"
    by (simp add: free_list_def)
qed

theorem binit_initial_state_witness:
  "0 < NR_BUFFERS small_config
   \<and> data (mem fresh_cache (Buffers 3)) = 0xC0000C00
   \<and> flags (mem fresh_cache (Buffers 3)) = 0xFFFFFFF0
   \<and> \<not> is_set BUFFER_LOCKED (Buffers 3) fresh_cache
   \<and> count (mem fresh_cache (Buffers 3)) = 0
   \<and> hash_next (mem fresh_cache (Buffers 3)) = Buffers 3
   \<and> free_list (mem fresh_cache) [0, 1, 2, 3]"
proof -
  have h: "0 < NR_BUFFERS small_config" by (simp add: small_config_def)
  have n: "3 < NR_BUFFERS small_config" by (simp add: small_config_def)
  note t = binit_initial_state [OF h, of "lottery_kernel 0", folded fresh_cache_def]
  have f: "flags (mem fresh_cache (Buffers 3)) = 0xFFFFFFF0"
    by (simp add: fresh_cache_def mem_binit small_config_def init_buffer_def BUFFER_VALID_def BUFFER_BUSY_def BUFFER_LOCKED_def
      BUFFER_DIRTY_def)
  have u: "[0 ..< NR_BUFFERS small_config] = [0, 1, 2, 3]"
    by (simp add: small_config_def upt_rec)
  show ?thesis
    using h f t [THEN conjunct1, rule_format, OF n] t [THEN conjunct2]
    by (simp add: u) (simp add: small_config_def)
qed

text \<open>
  Claim C10. \<open>blkunlock\<close> tests nothing: on any buffer, locked or not, it clears
  \<open>BUFFER_LOCKED\<close>, empties the chain of the buffer and makes every process of that chain
  ready; the other flags, the other fields of the buffer and all other buffers stay as
  they are.
\<close>

theorem blkunlock_effect:
  "\<not> is_set BUFFER_LOCKED buf (blkunlock buf k)
   \<and> is_set BUFFER_VALID buf (blkunlock buf k) = is_set BUFFER_VALID buf k
   \<and> is_set BUFFER_DIRTY buf (blkunlock buf k) = is_set BUFFER_DIRTY buf k
   \<and> is_set BUFFER_BUSY buf (blkunlock buf k) = is_set BUFFER_BUSY buf k
   \<and> chain (mem (blkunlock buf k) buf) = []
   \<and> (\<forall>p \<in> set (chain (mem k buf)). state (proctab (blkunlock buf k) p) = PROC_READY)
   \<and> dev (mem (blkunlock buf k) buf) = dev (mem k buf)
   \<and> num (mem (blkunlock buf k) buf) = num (mem k buf)
   \<and> data (mem (blkunlock buf k) buf) = data (mem k buf)
   \<and> count (mem (blkunlock buf k) buf) = count (mem k buf)
   \<and> free_next (mem (blkunlock buf k) buf) = free_next (mem k buf)
   \<and> free_prev (mem (blkunlock buf k) buf) = free_prev (mem k buf)
   \<and> hash_next (mem (blkunlock buf k) buf) = hash_next (mem k buf)
   \<and> hash_prev (mem (blkunlock buf k) buf) = hash_prev (mem k buf)
   \<and> (\<forall>q. q \<noteq> buf \<longrightarrow> mem (blkunlock buf k) q = mem k q)"
  by (simp add: mem_blkunlock is_set_def and_not_locked_other blkunlock_ready)

text \<open>The lock of a held buffer with a sleeper on its chain.\<close>

theorem blkunlock_effect_witness:
  "is_set BUFFER_LOCKED (Buffers 0) waiting_cache
   \<and> is_set BUFFER_VALID (Buffers 0) waiting_cache
   \<and> 1 \<in> set (chain (mem waiting_cache (Buffers 0)))
   \<and> state (proctab waiting_cache 1) = PROC_WAITING
   \<and> Buffers 1 \<noteq> Buffers 0
   \<and> \<not> is_set BUFFER_LOCKED (Buffers 0) (blkunlock (Buffers 0) waiting_cache)
   \<and> is_set BUFFER_VALID (Buffers 0) (blkunlock (Buffers 0) waiting_cache)
   \<and> state (proctab (blkunlock (Buffers 0) waiting_cache) 1) = PROC_READY
   \<and> count (mem (blkunlock (Buffers 0) waiting_cache) (Buffers 0)) = 1
   \<and> mem (blkunlock (Buffers 0) waiting_cache) (Buffers 1) = mem waiting_cache (Buffers 1)"
  using blkunlock_effect [of "Buffers 0" waiting_cache]
  by (simp add: waiting_cache_eval is_set_def BUFFER_LOCKED_def BUFFER_VALID_def)

text \<open>
  Claim C4. \<open>brelse\<close> on a buffer whose count is 0 panics with the message
  ``fs: freeing buffer twice''. In the state it halts in the count is -1 and no
  \<open>free_next\<close> or \<open>free_prev\<close> pointer has changed: the buffer has not been inserted into
  the free list.
\<close>

theorem brelse_twice_panics:
  assumes "count (mem k buf) = 0"
  shows "brelse buf k = Panic (''fs: '' @ ''freeing buffer twice'') (state_of (brelse buf k))
       \<and> (\<forall>p. free_next (mem (state_of (brelse buf k)) p) = free_next (mem k p)
              \<and> free_prev (mem (state_of (brelse buf k)) p) = free_prev (mem k p))
       \<and> (\<forall>xs. free_list (mem (state_of (brelse buf k))) xs = free_list (mem k) xs)
       \<and> sint (count (mem (state_of (brelse buf k)) buf)) = - 1"
proof -
  let ?k' = "upd buf (\<lambda>b. b\<lparr>count := - 1\<rparr>) (disable_interrupts k)"
  have b: "brelse buf k = Panic ''fs: freeing buffer twice'' ?k'"
    by (rule brelse_twice [OF assms])
  have l: "\<forall>p. free_next (mem ?k' p) = free_next (mem k p)
              \<and> free_prev (mem ?k' p) = free_prev (mem k p)"
    by (simp add: mem_upd)
  have "\<forall>xs. free_list (mem ?k') xs = free_list (mem k) xs"
    using free_list_links [OF l] by simp
  then show ?thesis using l by (simp add: b mem_upd)
qed

text \<open>A second \<open>brelse\<close> of buffer 0, which is free.\<close>

theorem brelse_twice_panics_witness:
  "count (mem released_cache (Buffers 0)) = 0
   \<and> brelse (Buffers 0) released_cache
       = Panic ''fs: freeing buffer twice'' (state_of (brelse (Buffers 0) released_cache))
   \<and> free_list (mem (state_of (brelse (Buffers 0) released_cache))) [0, 1, 2, 3]"
  using brelse_twice_panics [of released_cache "Buffers 0"] released_cache_free_list
  by (simp add: released_cache_eval)


text \<open>
  Claim C3. For a locked buffer with a count of at least 1, \<open>brelse\<close> returns and has
  decremented the count. If the new count is 0 it has woken the file-level chain and put
  the buffer into the free list, at the end if the buffer is valid and dirty and at the
  beginning otherwise; if not, the chain and the free list are as before. In both cases the
  buffer is unlocked and the sleepers of its chain are ready.
\<close>

theorem brelse_effect:
  assumes "is_set BUFFER_LOCKED (Buffers i) k"
    and "1 \<le> sint (count (mem k (Buffers i)))"
    and "free_list (mem k) xs" and "i \<notin> set xs"
  shows "\<exists>k'. brelse (Buffers i) k = Return () k'
        \<and> count (mem k' (Buffers i)) = count (mem k (Buffers i)) - 1
        \<and> sint (count (mem k' (Buffers i))) = sint (count (mem k (Buffers i))) - 1
        \<and> (if count (mem k' (Buffers i)) = 0
            then any_free_chain k' = []
               \<and> (\<forall>p\<in>set (any_free_chain k). state (proctab k' p) = PROC_READY)
               \<and> free_list (mem k')
                    (if is_set BUFFER_VALID (Buffers i) k \<and> is_set BUFFER_DIRTY (Buffers i) k
                     then xs @ [i] else i # xs)
            else any_free_chain k' = any_free_chain k \<and> free_list (mem k') xs)
        \<and> \<not> is_set BUFFER_LOCKED (Buffers i) k'
        \<and> chain (mem k' (Buffers i)) = []
        \<and> (\<forall>p\<in>set (chain (mem k (Buffers i))). state (proctab k' p) = PROC_READY)"
proof (cases "count (mem k (Buffers i)) = 1")
  case True
  let ?B = "Buffers i"
  let ?k2 = "wakeup Any_free_chain (upd ?B (\<lambda>b. b\<lparr>count := 0\<rparr>) (disable_interrupts k))"
  let ?ins = "if is_set BUFFER_VALID ?B k \<and> is_set BUFFER_DIRTY ?B k
          then free_insert_end ?B else free_insert_begin ?B"
  let ?ys = "if is_set BUFFER_VALID ?B k \<and> is_set BUFFER_DIRTY ?B k then xs @ [i] else i # xs"
  define k' where "k' = enable_interrupts (blkunlock ?B (?ins ?k2))"
  have b: "brelse ?B k = Return () k'"
    unfolding k'_def by (rule brelse_last [OF True])
  have fl: "free_list (mem ?k2) xs"
    by (rule free_list_frame [OF assms(3)]) (simp add: mem_upd)
  have ins: "free_list (mem (?ins ?k2)) ?ys"
    using free_list_insert_end [OF fl assms(4)] free_list_insert_begin [OF fl assms(4)]
    by simp
  have f': "free_list (mem k') ?ys"
    unfolding k'_def by (rule free_list_frame [OF ins]) simp
  have c': "count (mem k' ?B) = 0" "count (mem k ?B) - 1 = 0" "sint (count (mem k ?B)) - 1 = 0"
    using True by (simp_all add: k'_def mem_upd)
  have a': "any_free_chain k' = []"
    by (simp add: k'_def blkunlock_def wakeup_def Let_def)
  have w1: "state (proctab ?k2 p) = PROC_READY" if "p \<in> set (any_free_chain k)" for p
    using that by (intro wakeup_ready) simp
  have w1': "\<forall>p\<in>set (any_free_chain k). state (proctab k' p) = PROC_READY"
    using w1 by (simp add: k'_def blkunlock_keeps_ready)
  have ch: "chain (mem (?ins ?k2) ?B) = chain (mem k ?B)"
    by (simp add: mem_upd)
  have w2: "\<forall>p\<in>set (chain (mem k ?B)). state (proctab k' p) = PROC_READY"
    using ch by (simp add: k'_def blkunlock_ready)
  have l': "\<not> is_set BUFFER_LOCKED ?B k'" "chain (mem k' ?B) = []"
    by (simp_all add: k'_def mem_blkunlock)
  show ?thesis
    using w1' w2
    by (intro exI [of _ k']) (simp only: b c' f' a' l' if_True sint_0 simp_thms)
next
  case False
  let ?B = "Buffers i"
  let ?k2 = "upd ?B (\<lambda>b. b\<lparr>count := count b - 1\<rparr>) (disable_interrupts k)"
  define k' where "k' = enable_interrupts (blkunlock ?B ?k2)"
  have b: "brelse ?B k = Return () k'"
    unfolding k'_def by (rule brelse_more [OF assms(2) False])
  have c': "count (mem k' ?B) = count (mem k ?B) - 1" by (simp add: k'_def mem_upd)
  have nz: "count (mem k ?B) - 1 \<noteq> 0" using False by simp
  have s': "sint (count (mem k ?B) - 1) = sint (count (mem k ?B)) - 1"
    by (rule sint_dec [OF assms(2)])
  have f': "free_list (mem k') xs"
    unfolding k'_def by (rule free_list_frame [OF assms(3)]) (simp add: mem_upd)
  have a': "any_free_chain k' = any_free_chain k"
    by (simp add: k'_def blkunlock_def wakeup_def Let_def)
  have ch: "chain (mem ?k2 ?B) = chain (mem k ?B)" by (simp add: mem_upd)
  have w2: "\<forall>p\<in>set (chain (mem k ?B)). state (proctab k' p) = PROC_READY"
    using ch by (simp add: k'_def blkunlock_ready)
  have l': "\<not> is_set BUFFER_LOCKED ?B k'" "chain (mem k' ?B) = []"
    by (simp_all add: k'_def mem_blkunlock)
  show ?thesis
    using w2
    by (intro exI [of _ k']) (simp only: b c' nz s' f' a' l' if_False simp_thms)
qed

text \<open>The release of buffer 0, with a sleeper on each chain.\<close>

theorem brelse_effect_witness:
  "is_set BUFFER_LOCKED (Buffers 0) waiting_cache
   \<and> 1 \<le> sint (count (mem waiting_cache (Buffers 0)))
   \<and> free_list (mem waiting_cache) [1, 2, 3] \<and> 0 \<notin> set [1, 2, 3 :: nat]
   \<and> any_free_chain waiting_cache = [2] \<and> chain (mem waiting_cache (Buffers 0)) = [1]
   \<and> (\<exists>k'. brelse (Buffers 0) waiting_cache = Return () k'
          \<and> count (mem k' (Buffers 0)) = 0
          \<and> any_free_chain k' = [] \<and> state (proctab k' 2) = PROC_READY
          \<and> free_list (mem k') [0, 1, 2, 3]
          \<and> \<not> is_set BUFFER_LOCKED (Buffers 0) k'
          \<and> chain (mem k' (Buffers 0)) = [] \<and> state (proctab k' 1) = PROC_READY)"
proof -
  have h: "is_set BUFFER_LOCKED (Buffers 0) waiting_cache"
    "1 \<le> sint (count (mem waiting_cache (Buffers 0)))"
    "free_list (mem waiting_cache) [1, 2, 3]" "0 \<notin> set [1, 2, 3 :: nat]"
    using waiting_cache_free_list
    by (simp_all add: waiting_cache_eval is_set_def BUFFER_LOCKED_def)
  have f: "is_set BUFFER_VALID (Buffers 0) waiting_cache"
    "\<not> is_set BUFFER_DIRTY (Buffers 0) waiting_cache"
    by (simp_all add: waiting_cache_eval is_set_def BUFFER_VALID_def BUFFER_DIRTY_def)
  from brelse_effect [OF h] obtain k' where
    k': "brelse (Buffers 0) waiting_cache = Return () k'"
      "count (mem k' (Buffers 0)) = count (mem waiting_cache (Buffers 0)) - 1"
      "if count (mem k' (Buffers 0)) = 0
       then any_free_chain k' = []
          \<and> (\<forall>p\<in>set (any_free_chain waiting_cache). state (proctab k' p) = PROC_READY)
          \<and> free_list (mem k')
               (if is_set BUFFER_VALID (Buffers 0) waiting_cache
                   \<and> is_set BUFFER_DIRTY (Buffers 0) waiting_cache
                then [1, 2, 3] @ [0] else 0 # [1, 2, 3])
       else any_free_chain k' = any_free_chain waiting_cache \<and> free_list (mem k') [1, 2, 3]"
      "\<not> is_set BUFFER_LOCKED (Buffers 0) k'" "chain (mem k' (Buffers 0)) = []"
      "\<forall>p\<in>set (chain (mem waiting_cache (Buffers 0))). state (proctab k' p) = PROC_READY"
    by blast
  have c: "count (mem k' (Buffers 0)) = 0" using k'(2) by (simp add: waiting_cache_eval)
  have "any_free_chain k' = [] \<and> state (proctab k' 2) = PROC_READY
          \<and> free_list (mem k') [0, 1, 2, 3]"
    using k'(3) c f by (simp add: waiting_cache_eval)
  moreover have "state (proctab k' 1) = PROC_READY"
    using k'(6) by (simp add: waiting_cache_eval)
  ultimately show ?thesis
    using h k'(1,4,5) c by (simp add: waiting_cache_eval)
qed

text \<open>
  Claim C5. In a state where the block \<open>(d, n)\<close> is in no buffer of its hash queue and the
  buffer \<open>v\<close> at the head of the free list is clean, unlocked and unreferenced, \<open>bread(d, n)\<close>
  returns the buffer \<open>v\<close> and has called the driver once. After \<open>brelse\<close> the buffer is
  valid, holds the block and is the first of its hash queue; a second \<open>bread(d, n)\<close> returns
  the buffer \<open>v\<close> again and has not called the driver. Right after \<open>binit\<close> every block is in
  such a state, with buffer 0. In any state, \<open>bread\<close> of a block that is in a valid, unlocked
  buffer of its hash queue returns the first such buffer and does not call the driver.
\<close>

theorem bread_release_bread:
  "(0 < NR_BUFFERS c \<and> 0 < BUFFERS_HASHTAB_SIZE c \<longrightarrow> block_uncached c d n 0 (binit c k0))
   \<and> ((d \<noteq> 0 \<or> n \<noteq> 0) \<and> block_uncached c d n v k \<longrightarrow>
        (\<exists>k1 k2 k3.
           bread c d n k es = Return (Buffers v, es) k1
         \<and> devlog k1 = Read_block (Buffers v) # devlog k
         \<and> brelse (Buffers v) k1 = Return () k2
         \<and> is_set BUFFER_VALID (Buffers v) k2
         \<and> dev (mem k2 (Buffers v)) = d \<and> num (mem k2 (Buffers v)) = n
         \<and> hash_next (mem k2 (Hashtab (HASH c d n))) = Buffers v
         \<and> bread c d n k2 es = Return (Buffers v, es) k3
         \<and> devlog k3 = devlog k1))
   \<and> ((d \<noteq> 0 \<or> n \<noteq> 0) \<and> hash_bucket (mem k) (HASH c d n) bs
       \<and> find (\<lambda>b. dev (mem k b) = d \<and> num (mem k b) = n) bs = Some b
       \<and> is_set BUFFER_VALID b k \<and> \<not> is_set BUFFER_LOCKED b k \<longrightarrow>
        (\<exists>k'. bread c d n k es = Return (b, es) k' \<and> devlog k' = devlog k))"
proof (intro conjI impI)
  assume a: "0 < NR_BUFFERS c \<and> 0 < BUFFERS_HASHTAB_SIZE c"
  let ?k = "binit c k0" and ?i = "HASH c d n"
  have i: "?i < BUFFERS_HASHTAB_SIZE c" using a by (simp add: HASH_less)
  have "hash_next (mem ?k (Hashtab ?i)) = Hashtab ?i"
    using i by (simp add: mem_binit)
  then have "hash_bucket (mem ?k) ?i []"
    by (simp add: hash_bucket_def)
  then have b: "\<exists>bs. hash_bucket (mem ?k) ?i bs
                  \<and> (\<forall>b\<in>set bs. \<not> (dev (mem ?k b) = d \<and> num (mem ?k b) = n))"
    by (intro exI [of _ "[]"]) simp
  have m: "mem ?k (Buffers 0) = init_buffer c 0 (mem k0 (Buffers 0))"
    using a by (simp add: mem_binit)
  have "\<not> is_set BUFFER_DIRTY (Buffers 0) ?k" "\<not> is_set BUFFER_LOCKED (Buffers 0) ?k"
    by (simp_all add: is_set_def m init_buffer_flags)
  moreover have "count (mem ?k (Buffers 0)) = 0"
    by (simp add: m init_buffer_def)
  moreover have "free_next (mem ?k Free_buffers) = Buffers 0"
    by (simp add: mem_binit)
  ultimately show "block_uncached c d n 0 ?k"
    using b unfolding block_uncached_def by blast
next
  assume a: "(d \<noteq> 0 \<or> n \<noteq> 0) \<and> block_uncached c d n v k"
  let ?i = "HASH c d n"
  from a obtain bs where bs: "hash_bucket (mem k) ?i bs"
    "\<forall>b\<in>set bs. \<not> (dev (mem k b) = d \<and> num (mem k b) = n)"
    unfolding block_uncached_def by blast
  have "find (\<lambda>b. dev (mem k b) = d \<and> num (mem k b) = n) bs = None"
    using bs(2) by (simp add: find_None_iff)
  then have s: "hash_search (mem k) (Hashtab ?i) d n (hash_next (mem k (Hashtab ?i))) = Some None"
    using bs(1) by (simp add: hash_bucket_def hash_search_bucket)
  have dn: "d \<noteq> 0 \<or> n \<noteq> 0" using a by simp
  have hd: "free_next (mem k Free_buffers) = Buffers v"
    and nd: "\<not> is_set BUFFER_DIRTY (Buffers v) k"
    and nl: "\<not> is_set BUFFER_LOCKED (Buffers v) k"
    and c0: "count (mem k (Buffers v)) = 0"
    using a by (simp_all add: block_uncached_def)
  from bread_twice_general [OF dn s hd nd nl c0, of es]
  show "\<exists>k1 k2 k3.
           bread c d n k es = Return (Buffers v, es) k1
         \<and> devlog k1 = Read_block (Buffers v) # devlog k
         \<and> brelse (Buffers v) k1 = Return () k2
         \<and> is_set BUFFER_VALID (Buffers v) k2
         \<and> dev (mem k2 (Buffers v)) = d \<and> num (mem k2 (Buffers v)) = n
         \<and> hash_next (mem k2 (Hashtab (HASH c d n))) = Buffers v
         \<and> bread c d n k2 es = Return (Buffers v, es) k3
         \<and> devlog k3 = devlog k1"
    by blast
next
  assume a: "(d \<noteq> 0 \<or> n \<noteq> 0) \<and> hash_bucket (mem k) (HASH c d n) bs
       \<and> find (\<lambda>b. dev (mem k b) = d \<and> num (mem k b) = n) bs = Some b
       \<and> is_set BUFFER_VALID b k \<and> \<not> is_set BUFFER_LOCKED b k"
  then have "d \<noteq> 0 \<or> n \<noteq> 0" "hash_bucket (mem k) (HASH c d n) bs"
    "find (\<lambda>b. dev (mem k b) = d \<and> num (mem k b) = n) bs = Some b"
    "is_set BUFFER_VALID b k" "\<not> is_set BUFFER_LOCKED b k"
    by blast+
  then show "\<exists>k'. bread c d n k es = Return (b, es) k' \<and> devlog k' = devlog k"
    by (rule bread_hit_general)
qed

text \<open>
  The hit scenario of the spec, block (1, 10) right after \<open>binit\<close>; and block (1, 4) while
  buffer 0 is held with block (1, 10), which is in the same hash queue: the search passes
  buffer 0, the block goes to buffer 1 and is found there again. With both buffers released,
  block (1, 10) is found in buffer 0 behind buffer 1.
\<close>

theorem bread_release_bread_witness:
  "devlog fresh_cache = []
   \<and> (\<exists>k1 k2 k3.
           bread small_config 1 10 fresh_cache [] = Return (Buffers 0, []) k1
         \<and> devlog k1 = [Read_block (Buffers 0)]
         \<and> brelse (Buffers 0) k1 = Return () k2
         \<and> bread small_config 1 10 k2 [] = Return (Buffers 0, []) k3
         \<and> devlog k3 = [Read_block (Buffers 0)])
   \<and> HASH small_config 1 4 = HASH small_config 1 10
   \<and> hash_bucket (mem read_cache) (HASH small_config 1 4) [Buffers 0]
   \<and> devlog read_cache = [Read_block (Buffers 0)]
   \<and> (\<exists>k1 k2 k3.
           bread small_config 1 4 read_cache [] = Return (Buffers 1, []) k1
         \<and> devlog k1 = [Read_block (Buffers 1), Read_block (Buffers 0)]
         \<and> brelse (Buffers 1) k1 = Return () k2
         \<and> hash_next (mem k2 (Hashtab (HASH small_config 1 4))) = Buffers 1
         \<and> bread small_config 1 4 k2 [] = Return (Buffers 1, []) k3
         \<and> devlog k3 = [Read_block (Buffers 1), Read_block (Buffers 0)])
   \<and> hash_bucket (mem two_blocks_cache) (HASH small_config 1 10) [Buffers 1, Buffers 0]
   \<and> num (mem two_blocks_cache (Buffers 1)) = 4
   \<and> (\<exists>k'. bread small_config 1 10 two_blocks_cache [] = Return (Buffers 0, []) k'
           \<and> devlog k' = [Read_block (Buffers 1), Read_block (Buffers 0)])"
proof -
  have h: "0 < NR_BUFFERS small_config \<and> 0 < BUFFERS_HASHTAB_SIZE small_config"
    by (simp add: small_config_def)
  have l: "devlog fresh_cache = []"
    by (simp add: fresh_cache_def lottery_kernel_def)
  have u0: "block_uncached small_config 1 10 0 fresh_cache"
    using bread_release_bread [of small_config 1 10 "lottery_kernel 0"] h
    by (simp only: fresh_cache_def simp_thms)
  have dn: "(1 :: cint) \<noteq> 0 \<or> (10 :: cint) \<noteq> 0" "(1 :: cint) \<noteq> 0 \<or> (4 :: cint) \<noteq> 0"
    by simp_all
  from bread_release_bread [of small_config 1 10 "lottery_kernel 0" 0 fresh_cache "[]"] dn(1) u0
  obtain k1 k2 k3 where r0:
    "bread small_config 1 10 fresh_cache [] = Return (Buffers 0, []) k1"
    "devlog k1 = Read_block (Buffers 0) # devlog fresh_cache"
    "brelse (Buffers 0) k1 = Return () k2"
    "bread small_config 1 10 k2 [] = Return (Buffers 0, []) k3"
    "devlog k3 = devlog k1"
    by blast
  have hs: "HASH small_config 1 4 = 2" by (simp add: HASH_def small_config_def)
  have hb: "hash_bucket (mem read_cache) 2 [Buffers 0]"
    by (simp add: hash_bucket_def read_cache_eval)
  have "\<exists>bs. hash_bucket (mem read_cache) 2 bs
           \<and> (\<forall>b\<in>set bs. \<not> (dev (mem read_cache b) = 1 \<and> num (mem read_cache b) = 4))"
    using hb by (intro exI [of _ "[Buffers 0]"]) (simp add: read_cache_eval)
  moreover have "\<not> is_set BUFFER_DIRTY (Buffers 1) read_cache"
    "\<not> is_set BUFFER_LOCKED (Buffers 1) read_cache"
    "count (mem read_cache (Buffers 1)) = 0"
    by (simp_all add: read_cache_eval fresh_cache_mem is_set_def BUFFER_DIRTY_def
        BUFFER_LOCKED_def)
  ultimately have u1: "block_uncached small_config 1 4 1 read_cache"
    unfolding block_uncached_def hs by (simp add: read_cache_eval)
  from bread_release_bread [of small_config 1 4 "lottery_kernel 0" 1 read_cache "[]"] dn(2) u1
  obtain j1 j2 j3 where r1:
    "bread small_config 1 4 read_cache [] = Return (Buffers 1, []) j1"
    "devlog j1 = Read_block (Buffers 1) # devlog read_cache"
    "brelse (Buffers 1) j1 = Return () j2"
    "hash_next (mem j2 (Hashtab (HASH small_config 1 4))) = Buffers 1"
    "bread small_config 1 4 j2 [] = Return (Buffers 1, []) j3"
    "devlog j3 = devlog j1"
    by blast
  have lr: "devlog read_cache = [Read_block (Buffers 0)]" by (simp add: read_cache_eval)
  have "\<exists>k1 k2 k3.
           bread small_config 1 10 fresh_cache [] = Return (Buffers 0, []) k1
         \<and> devlog k1 = [Read_block (Buffers 0)]
         \<and> brelse (Buffers 0) k1 = Return () k2
         \<and> bread small_config 1 10 k2 [] = Return (Buffers 0, []) k3
         \<and> devlog k3 = [Read_block (Buffers 0)]"
    using r0 l by auto
  moreover have "\<exists>k1 k2 k3.
           bread small_config 1 4 read_cache [] = Return (Buffers 1, []) k1
         \<and> devlog k1 = [Read_block (Buffers 1), Read_block (Buffers 0)]
         \<and> brelse (Buffers 1) k1 = Return () k2
         \<and> hash_next (mem k2 (Hashtab (HASH small_config 1 4))) = Buffers 1
         \<and> bread small_config 1 4 k2 [] = Return (Buffers 1, []) k3
         \<and> devlog k3 = [Read_block (Buffers 1), Read_block (Buffers 0)]"
    using r1 lr by auto
  moreover have hb2: "hash_bucket (mem two_blocks_cache) 2 [Buffers 1, Buffers 0]"
    by (simp add: hash_bucket_def two_blocks_cache_eval)
  moreover have n1: "num (mem two_blocks_cache (Buffers 1)) = 4"
    by (simp add: two_blocks_cache_eval)
  moreover have "\<exists>k'. bread small_config 1 10 two_blocks_cache [] = Return (Buffers 0, []) k'
           \<and> devlog k' = [Read_block (Buffers 1), Read_block (Buffers 0)]"
  proof -
    have "((1 :: cint) \<noteq> 0 \<or> (10 :: cint) \<noteq> 0)
        \<and> hash_bucket (mem two_blocks_cache) (HASH small_config 1 10) [Buffers 1, Buffers 0]
        \<and> find (\<lambda>b. dev (mem two_blocks_cache b) = 1 \<and> num (mem two_blocks_cache b) = 10)
             [Buffers 1, Buffers 0] = Some (Buffers 0)
        \<and> is_set BUFFER_VALID (Buffers 0) two_blocks_cache
        \<and> \<not> is_set BUFFER_LOCKED (Buffers 0) two_blocks_cache"
      using hb2 unfolding hash_small
      by (simp add: two_blocks_cache_eval is_set_def BUFFER_VALID_def BUFFER_LOCKED_def)
    with bread_release_bread [of small_config 1 10 "lottery_kernel 0" 0 two_blocks_cache "[]"
        "[Buffers 1, Buffers 0]" "Buffers 0"]
    obtain k' where "bread small_config 1 10 two_blocks_cache [] = Return (Buffers 0, []) k'"
      "devlog k' = devlog two_blocks_cache"
      by blast
    then show ?thesis by (auto simp: two_blocks_cache_eval)
  qed
  ultimately show ?thesis
    using l lr hb by (simp only: hs hash_small simp_thms)
qed


text \<open>
  Claim C2, as the code has it. \<open>getblk(0, 0)\<close> panics. For any other block, in states
  where the hash queue of the block is well formed, the reference counts are between 0 and
  \<open>INT_MAX - 1\<close> and the head of the free list is not locked, a call of \<open>getblk\<close> ends in one
  of three ways: it returns a buffer that holds the block, locked and with a count of at
  least 1; it panics with ``fs: asynchronous write'', the buffer at the head of the free
  list being dirty; or it is still asleep, waiting for a locked buffer that holds the block
  or for a free buffer. It returns at once when the block is in an unlocked buffer of its
  hash queue, and when it is in none and the head of the free list is clean and unlocked.
\<close>

theorem getblk_outcomes:
  "getblk c 0 0 k es = Panic ''getblk(0, 0)'' k
   \<and> ((d \<noteq> 0 \<or> n \<noteq> 0) \<and> (\<forall>e\<in>set (k # es). getblk_ready c d n e)
        \<longrightarrow> getblk_post d n (getblk c d n k es))
   \<and> ((d \<noteq> 0 \<or> n \<noteq> 0) \<and> hash_bucket (mem k) (HASH c d n) bs
        \<and> find (\<lambda>b. dev (mem k b) = d \<and> num (mem k b) = n) bs = Some b
        \<and> \<not> is_set BUFFER_LOCKED b k
        \<longrightarrow> (\<exists>k'. getblk c d n k es = Return (b, es) k'))
   \<and> ((d \<noteq> 0 \<or> n \<noteq> 0) \<and> hash_bucket (mem k) (HASH c d n) bs
        \<and> find (\<lambda>b. dev (mem k b) = d \<and> num (mem k b) = n) bs = None
        \<and> free_next (mem k Free_buffers) = buf \<and> buf \<noteq> Free_buffers
        \<and> \<not> is_set BUFFER_DIRTY buf k \<and> \<not> is_set BUFFER_LOCKED buf k
        \<longrightarrow> (\<exists>k'. getblk c d n k es = Return (buf, es) k'))"
proof (intro conjI impI)
  show "getblk c 0 0 k es = Panic ''getblk(0, 0)'' k"
    by (simp add: getblk_def)
next
  assume a: "(d \<noteq> 0 \<or> n \<noteq> 0) \<and> (\<forall>e\<in>set (k # es). getblk_ready c d n e)"
  then have "getblk c d n k es = getblk_repeat c d n k es"
    by (auto simp: getblk_def)
  then show "getblk_post d n (getblk c d n k es)"
    using a getblk_repeat_ready [of k es c d n] by simp
next
  assume "(d \<noteq> 0 \<or> n \<noteq> 0) \<and> hash_bucket (mem k) (HASH c d n) bs
        \<and> find (\<lambda>b. dev (mem k b) = d \<and> num (mem k b) = n) bs = Some b
        \<and> \<not> is_set BUFFER_LOCKED b k"
  then show "\<exists>k'. getblk c d n k es = Return (b, es) k'"
    using getblk_returns_hit [of d n k c bs b es] by blast
next
  assume "(d \<noteq> 0 \<or> n \<noteq> 0) \<and> hash_bucket (mem k) (HASH c d n) bs
        \<and> find (\<lambda>b. dev (mem k b) = d \<and> num (mem k b) = n) bs = None
        \<and> free_next (mem k Free_buffers) = buf \<and> buf \<noteq> Free_buffers
        \<and> \<not> is_set BUFFER_DIRTY buf k \<and> \<not> is_set BUFFER_LOCKED buf k"
  then show "\<exists>k'. getblk c d n k es = Return (buf, es) k'"
    using getblk_returns_miss [of d n k c bs buf es] by blast
qed

text \<open>
  \<open>getblk(0, 0)\<close>; a call that sleeps on the locked buffer 0 and gets it once it has been
  released; a hit and a miss that return at once.
\<close>

theorem getblk_outcomes_witness:
  "getblk small_config 0 0 fresh_cache [] = Panic ''getblk(0, 0)'' fresh_cache
   \<and> getblk small_config 1 10 read_cache [released_cache]
       = Return (Buffers 0, []) (state_of (getblk small_config 1 10 read_cache [released_cache]))
   \<and> dev (mem (state_of (getblk small_config 1 10 read_cache [released_cache])) (Buffers 0)) = 1
   \<and> num (mem (state_of (getblk small_config 1 10 read_cache [released_cache])) (Buffers 0)) = 10
   \<and> is_set BUFFER_LOCKED (Buffers 0)
        (state_of (getblk small_config 1 10 read_cache [released_cache]))
   \<and> 1 \<le> sint (count (mem (state_of (getblk small_config 1 10 read_cache [released_cache]))
                        (Buffers 0)))
   \<and> getblk small_config 1 10 released_cache []
       = Return (Buffers 0, []) (state_of (getblk small_config 1 10 released_cache []))
   \<and> getblk small_config 1 10 fresh_cache []
       = Return (Buffers 0, []) (state_of (getblk small_config 1 10 fresh_cache []))"
proof -
  have ne: "(1 :: cint) \<noteq> 0 \<or> (10 :: cint) \<noteq> 0" by simp
  have rdy: "\<forall>e\<in>set (read_cache # [released_cache]). getblk_ready small_config 1 10 e"
    by (simp add: getblk_ready_read_cache getblk_ready_released_cache)
  have post: "getblk_post 1 10 (getblk small_config 1 10 read_cache [released_cache])"
    using getblk_outcomes [of small_config read_cache "[released_cache]" 1 10] ne rdy by blast
  have b1: "hash_bucket (mem released_cache) (HASH small_config 1 10) [Buffers 0]"
    and f1: "find (\<lambda>b. dev (mem released_cache b) = 1 \<and> num (mem released_cache b) = 10)
               [Buffers 0] = Some (Buffers 0)"
    and l1: "\<not> is_set BUFFER_LOCKED (Buffers 0) released_cache"
    by (simp_all add: hash_small hash_bucket_def released_cache_eval is_set_def BUFFER_LOCKED_def)
  have hit: "\<exists>k'. getblk small_config 1 10 released_cache [] = Return (Buffers 0, []) k'"
    using getblk_outcomes [of small_config released_cache "[]" 1 10 "[Buffers 0]" "Buffers 0"]
      ne b1 f1 l1 by blast
  have b2: "hash_bucket (mem fresh_cache) (HASH small_config 1 10) []"
    and h2: "free_next (mem fresh_cache Free_buffers) = Buffers 0" "Buffers 0 \<noteq> Free_buffers"
    and d2: "\<not> is_set BUFFER_DIRTY (Buffers 0) fresh_cache"
      "\<not> is_set BUFFER_LOCKED (Buffers 0) fresh_cache"
    unfolding hash_small
    by (simp_all add: hash_bucket_def fresh_cache_def mem_binit small_config_def
        is_set_def init_buffer_flags)
  have miss: "\<exists>k'. getblk small_config 1 10 fresh_cache [] = Return (Buffers 0, []) k'"
    using getblk_outcomes [of small_config fresh_cache "[]" 1 10 "[]" _ "Buffers 0"]
      ne b2 h2 d2 by simp
  have z: "getblk small_config 0 0 fresh_cache [] = Panic ''getblk(0, 0)'' fresh_cache"
    using getblk_outcomes [of small_config fresh_cache "[]"] by blast
  from post have "dev (mem (state_of (getblk small_config 1 10 read_cache [released_cache])) (Buffers 0)) = 1
   \<and> num (mem (state_of (getblk small_config 1 10 read_cache [released_cache])) (Buffers 0)) = 10
   \<and> is_set BUFFER_LOCKED (Buffers 0)
        (state_of (getblk small_config 1 10 read_cache [released_cache]))
   \<and> 1 \<le> sint (count (mem (state_of (getblk small_config 1 10 read_cache [released_cache]))
                        (Buffers 0)))"
    by (subst (asm) getblk_after_sleep) (simp add: getblk_post_def)
  moreover from hit have "getblk small_config 1 10 released_cache []
       = Return (Buffers 0, []) (state_of (getblk small_config 1 10 released_cache []))"
    by auto
  moreover from miss have "getblk small_config 1 10 fresh_cache []
       = Return (Buffers 0, []) (state_of (getblk small_config 1 10 fresh_cache []))"
    by auto
  ultimately show ?thesis using z getblk_after_sleep by blast
qed

text \<open>
  The claim as it is stated fails: with the dirty buffer 0 as the only free buffer,
  \<open>getblk(1, 14)\<close> does not return, it panics.
\<close>

theorem getblk_dirty_victim_panics:
  "getblk small_config 1 14 dirty_cache []
     = Panic ''fs: asynchronous write'' (state_of (getblk small_config 1 14 dirty_cache []))"
proof -
  have h: "HASH small_config 1 14 = 0" by (simp add: HASH_def small_config_def)
  have s: "hash_search (mem dirty_cache) (Hashtab (HASH small_config 1 14)) 1 14
             (hash_next (mem dirty_cache (Hashtab (HASH small_config 1 14)))) = Some None"
    unfolding h dirty_cache_eval
    by (subst hash_search.simps, simp add: dirty_cache_eval, subst hash_search.simps) simp
  have d: "is_set BUFFER_DIRTY (free_next (mem dirty_cache Free_buffers)) dirty_cache"
    by (simp add: dirty_cache_eval is_set_def BUFFER_DIRTY_def)
  have "getblk_pass small_config 1 14 dirty_cache [] = Finished (Panic ''fs: asynchronous write''
       (take_reference (free_next (mem dirty_cache Free_buffers))
          (free_remove (free_next (mem dirty_cache Free_buffers)) (disable_interrupts dirty_cache))))"
    by (rule getblk_pass_dirty [OF s _ d]) (simp add: dirty_cache_eval)
  then have "getblk small_config 1 14 dirty_cache [] = Panic ''fs: asynchronous write''
       (take_reference (free_next (mem dirty_cache Free_buffers))
          (free_remove (free_next (mem dirty_cache Free_buffers)) (disable_interrupts dirty_cache)))"
    by (intro getblk_finished) simp_all
  then show ?thesis by simp
qed


text \<open>
  Claim C8. A buffer should have a count of 0 exactly when it is on the free list, at every
  point where interrupts are enabled. \<open>bsync\<close> breaks this: on the valid free buffer 0 it
  calls \<open>blklock\<close>, which leaves the interrupts enabled, and then increments the count
  (line 355) before it unlinks the buffer (lines 357 and 358). After the increment the
  interrupts are enabled, the count is 1 and the buffer is still on the free list.
  \<open>getblk\<close> does the same two steps with the interrupts disabled.
\<close>

theorem bsync_breaks_invariant:
  "count_invariant small_config released_cache
   \<and> free_list (mem released_cache) [0, 1, 2, 3]
   \<and> count (mem released_cache (Buffers 0)) = 0
   \<and> interrupts released_cache
   \<and> blklock (Buffers 0) released_cache []
       = Return [] (state_of (blklock (Buffers 0) released_cache []))
   \<and> is_set BUFFER_VALID (Buffers 0) (state_of (blklock (Buffers 0) released_cache []))
   \<and> interrupts (take_reference (Buffers 0) (state_of (blklock (Buffers 0) released_cache [])))
   \<and> count (mem (take_reference (Buffers 0) (state_of (blklock (Buffers 0) released_cache [])))
              (Buffers 0)) = 1
   \<and> free_list (mem (take_reference (Buffers 0)
                        (state_of (blklock (Buffers 0) released_cache [])))) [0, 1, 2, 3]
   \<and> \<not> count_invariant small_config
         (take_reference (Buffers 0) (state_of (blklock (Buffers 0) released_cache [])))
   \<and> bsync_buffer (Buffers 0) released_cache []
       = Return [] (bdev_writeblk (Buffers 0) (free_remove (Buffers 0)
           (take_reference (Buffers 0) (state_of (blklock (Buffers 0) released_cache [])))))"
proof -
  let ?k1 = "enable_interrupts (upd (Buffers 0) (\<lambda>b. b\<lparr>flags := flags b OR BUFFER_LOCKED\<rparr>)
               (disable_interrupts released_cache))"
  have l: "\<not> is_set BUFFER_LOCKED (Buffers 0) released_cache"
    and v: "is_set BUFFER_VALID (Buffers 0) released_cache"
    by (simp_all add: released_cache_eval is_set_def BUFFER_LOCKED_def BUFFER_VALID_def)
  have b: "blklock (Buffers 0) released_cache [] = Return [] ?k1"
    by (rule blklock_free [OF l])
  have v1: "is_set BUFFER_VALID (Buffers 0) ?k1" using v by simp
  have i1: "interrupts (take_reference (Buffers 0) ?k1)" by simp
  have c1: "count (mem (take_reference (Buffers 0) ?k1) (Buffers 0)) = 1"
    "count (mem ?k1 (Buffers 0)) = 0"
    by (simp_all add: mem_upd released_cache_eval)
  have f1: "free_list (mem (take_reference (Buffers 0) ?k1)) [0, 1, 2, 3]"
    by (rule free_list_frame [OF released_cache_free_list]) (simp add: mem_upd)
  have s: "bsync_buffer (Buffers 0) released_cache []
       = Return [] (bdev_writeblk (Buffers 0) (free_remove (Buffers 0)
           (take_reference (Buffers 0) ?k1)))"
    using v1 c1(2) by (simp add: bsync_buffer_def b Let_def)
  have c0: "count (mem released_cache (Buffers 0)) = 0" "interrupts released_cache"
    by (simp_all add: released_cache_eval)
  have "count_invariant small_config ?k1"
    using count_invariant_released_cache by (rule count_invariant_frame) (simp add: mem_upd)
  then have n: "\<not> count_invariant small_config (take_reference (Buffers 0) ?k1)"
    by (rule count_invariant_window) (simp_all add: mem_upd count_released_cache small_config_def)
  show ?thesis
    using released_cache_free_list i1 c1(1) f1 v1 n count_invariant_released_cache
    by (simp only: b s state_of.simps simp_thms c0)
qed


end
